theory Spec2Isabelle
  imports Main
begin

section \<open>The search hook of the wiki demo client (search.ts)\<close>

text \<open>
  The development embeds \<^verbatim>\<open>useSearch\<close> of
  \<^verbatim>\<open>demo/wiki/client/src/search/search.ts\<close>: the tokenizer of line 33, the
  effect body of lines 33 to 36, the asynchronous timer callback of lines 37 to 77 and
  the browser environment the callback is suspended in (pending timers, the index query
  in flight, the summary fetches in flight).
\<close>

subsection \<open>Tokenizer (line 33)\<close>

text \<open>
  \<^verbatim>\<open>query.split(/[^a-zA-Z0-9]+/).filter(t => t).map(t => t.toLowerCase())\<close>.
  A character is a separator unless it is an ASCII letter or digit, so every character
  beyond ASCII is a separator and the fragments that survive hold ASCII letters and
  digits only; on these \<^verbatim>\<open>toLowerCase\<close> is the ASCII mapping.
\<close>

definition is_alnum :: "char \<Rightarrow> bool" where
  "is_alnum c =
     (let n = (of_char c :: nat)
      in (97 \<le> n \<and> n \<le> 122) \<or> (65 \<le> n \<and> n \<le> 90) \<or> (48 \<le> n \<and> n \<le> 57))"

definition toLowerCase_char :: "char \<Rightarrow> char" where
  "toLowerCase_char c =
     (let n = (of_char c :: nat)
      in if 65 \<le> n \<and> n \<le> 90 then char_of (n + 32) else c)"

definition toLowerCase :: "string \<Rightarrow> string" where
  "toLowerCase t = map toLowerCase_char t"

text \<open>
  \<^verbatim>\<open>String.prototype.split\<close> with the separator \<^verbatim>\<open>/[^a-zA-Z0-9]+/\<close>: the
  pattern is greedy, so one match consumes a whole run of separators; the text before a
  match is a fragment (empty when the string starts with a separator), and the text
  after the last match is the last fragment (empty when the string ends with a
  separator, and the only fragment of the empty string). The flag says that the
  characters just read belong to a separator run.
\<close>

fun split_from :: "bool \<Rightarrow> string \<Rightarrow> string list" where
  "split_from in_sep [] = [[]]"
| "split_from in_sep (c # cs) =
     (if is_alnum c then
        (case split_from False cs of
           [] \<Rightarrow> [[c]]
         | f # fs \<Rightarrow> (c # f) # fs)
      else if in_sep then split_from True cs
      else [] # split_from True cs)"

definition split_nonalnum :: "string \<Rightarrow> string list" where
  "split_nonalnum s = split_from False s"

definition tokenize :: "string \<Rightarrow> string list" where
  "tokenize query = map toLowerCase (filter (\<lambda>t. t \<noteq> []) (split_nonalnum query))"




subsection \<open>Data (lines 6 to 25)\<close>

text \<open>
  \<^verbatim>\<open>WikipediaPageSummary\<close>; the fields \<^verbatim>\<open>id\<close>, \<^verbatim>\<open>image\<close> and \<^verbatim>\<open>extract\<close> are named
  \<open>article_id\<close>, \<open>image_src\<close> and \<open>extract_text\<close> here, and the optional image is \<open>None\<close>
  when undefined. Entity ids are integers; the
  set of line 58 compares them by value.
\<close>

record WikipediaPageSummary =
  article_id :: int
  title :: string
  titleHtml :: string
  url :: string
  image_src :: "string option"
  extract_text :: string
  extractHtml :: string

text \<open>\<^verbatim>\<open>FulfilledSearchResults\<close>; its field \<^verbatim>\<open>more\<close> is named \<open>more_flag\<close> here.\<close>

record FulfilledSearchResults =
  fullArticles :: "WikipediaPageSummary list"
  basicArticles :: "WikipediaPageSummary list"
  count :: nat
  more_flag :: bool

text \<open>
  What \<^verbatim>\<open>client.search\<close> resolves to (\<^verbatim>\<open>titles\<close> of line 37): the matched
  titles in the index's order and the flag \<^verbatim>\<open>more\<close>.
\<close>

record SearchResponse =
  search_results :: "string list"
  search_more :: bool

text \<open>
  The JSON body of a summary response, as far as lines 47 to 55 read it.
  \<open>content_urls_desktop_page\<close> is \<open>None\<close> when \<^verbatim>\<open>content_urls\<close> or its
  \<^verbatim>\<open>desktop\<close> is missing, where line 51 throws a TypeError; \<open>thumbnail_source\<close> is
  what \<^verbatim>\<open>metadata.thumbnail?.source\<close> evaluates to.
\<close>

record PageMetadata =
  pageid :: int
  md_title :: string
  displaytitle :: string
  content_urls_desktop_page :: "string option"
  thumbnail_source :: "string option"
  md_extract :: string
  extract_html :: string

datatype body = NotJson | Json PageMetadata

text \<open>How one \<^verbatim>\<open>fetch\<close> settles: rejected, or a response with a status and a body.\<close>

datatype fetch_result = FetchRejected | Response int body

datatype error = NetworkError | SyntaxError | TypeError

subsection \<open>Summary resolution (lines 41 to 56)\<close>

text \<open>
  The callback mapped over \<^verbatim>\<open>titles.results\<close>: a status outside 200 to 299 gives
  \<^verbatim>\<open>null\<close>; otherwise the body is parsed and the summary built. A rejected
  fetch, a body that is not JSON and a missing \<^verbatim>\<open>content_urls.desktop\<close> reject the
  callback's promise.
\<close>

definition fetch_summary :: "fetch_result \<Rightarrow> error + WikipediaPageSummary option" where
  "fetch_summary res =
     (case res of
        FetchRejected \<Rightarrow> Inl NetworkError
      | Response status b \<Rightarrow>
          if status < 200 \<or> status > 299 then Inr None
          else (case b of
                  NotJson \<Rightarrow> Inl SyntaxError
                | Json metadata \<Rightarrow>
                    (case content_urls_desktop_page metadata of
                       None \<Rightarrow> Inl TypeError
                     | Some page \<Rightarrow>
                         Inr (Some \<lparr>article_id = pageid metadata,
                                    title = md_title metadata,
                                    titleHtml = displaytitle metadata,
                                    url = page,
                                    image_src = thumbnail_source metadata,
                                    extract_text = md_extract metadata,
                                    extractHtml = extract_html metadata\<rparr>))))"

text \<open>
  \<^verbatim>\<open>Promise.all\<close>: the values in the order of the promises when all fulfil, a
  rejection when one rejects.
\<close>

fun promise_all :: "(error + 'a) list \<Rightarrow> error + 'a list" where
  "promise_all [] = Inr []"
| "promise_all (Inl e # ps) = Inl e"
| "promise_all (Inr v # ps) =
     (case promise_all ps of Inl e \<Rightarrow> Inl e | Inr vs \<Rightarrow> Inr (v # vs))"

subsection \<open>Deduplication and classification (lines 58 to 77)\<close>

text \<open>\<^verbatim>\<open>if (article.image)\<close>: undefined and the empty string are falsy.\<close>

definition truthy :: "string option \<Rightarrow> bool" where
  "truthy img = (case img of None \<Rightarrow> False | Some src \<Rightarrow> src \<noteq> [])"

text \<open>The loop of lines 61 to 71 over the rest of \<^verbatim>\<open>articles\<close>, with its three variables.\<close>

fun classify_loop ::
  "WikipediaPageSummary option list \<Rightarrow> int set \<Rightarrow> WikipediaPageSummary list
   \<Rightarrow> WikipediaPageSummary list \<Rightarrow> WikipediaPageSummary list \<times> WikipediaPageSummary list"
where
  "classify_loop [] articleIds full basic = (full, basic)"
| "classify_loop (None # rest) articleIds full basic =
     classify_loop rest articleIds full basic"
| "classify_loop (Some article # rest) articleIds full basic =
     (if article_id article \<in> articleIds then classify_loop rest articleIds full basic
      else if truthy (image_src article)
        then classify_loop rest (insert (article_id article) articleIds)
               (full @ [article]) basic
        else classify_loop rest (insert (article_id article) articleIds)
               full (basic @ [article]))"

text \<open>Lines 58 to 77: the object handed to \<^verbatim>\<open>setResults\<close>.\<close>

definition fulfilled ::
  "WikipediaPageSummary option list \<Rightarrow> SearchResponse \<Rightarrow> FulfilledSearchResults" where
  "fulfilled articles titles =
     (case classify_loop articles {} [] [] of
        (full, basic) \<Rightarrow>
          \<lparr>fullArticles = full, basicArticles = basic,
           count = length full + length basic, more_flag = search_more titles\<rparr>)"

text \<open>
  Deduplication as the specification words it: the summaries that did not fail, in the
  index's order, each entity id kept at its first occurrence only.
\<close>

fun first_by_id :: "int set \<Rightarrow> WikipediaPageSummary list \<Rightarrow> WikipediaPageSummary list" where
  "first_by_id seen [] = []"
| "first_by_id seen (a # as) =
     (if article_id a \<in> seen then first_by_id seen as
      else a # first_by_id (insert (article_id a) seen) as)"

definition succeeded :: "WikipediaPageSummary option list \<Rightarrow> WikipediaPageSummary list" where
  "succeeded articles = concat (map (\<lambda>a. case a of None \<Rightarrow> [] | Some x \<Rightarrow> [x]) articles)"

subsection \<open>The hook and its environment (lines 27 to 84)\<close>

text \<open>
  The hook's own state is \<open>query\<close>, \<open>results\<close> (\<open>None\<close> for undefined) and the ref
  \<open>searchDebounce\<close>. The rest is the browser: the clock, the next timer handle, the
  pending timeouts (handle, time due, the terms the callback closed over), the callbacks
  suspended at line 37 (by their \<^verbatim>\<open>searchId\<close>) and at line 41 (with their
  \<^verbatim>\<open>titles\<close>), and a log of the calls made: the term lists given to
  \<^verbatim>\<open>client.search\<close>, the titles fetched, and the objects given to
  \<^verbatim>\<open>setResults\<close> at line 72 with the \<^verbatim>\<open>searchId\<close> of the callback that gave them.
\<close>

record hook =
  query :: string
  results :: "FulfilledSearchResults option"
  searchDebounce :: "nat option"
  now :: nat
  next_handle :: nat
  timers :: "(nat \<times> nat \<times> string list) list"
  awaiting_search :: "nat list"
  awaiting_fetch :: "(nat \<times> SearchResponse) list"
  search_calls :: "string list list"
  fetch_calls :: "string list"
  commits :: "(nat \<times> FulfilledSearchResults) list"

definition clearTimeout :: "nat option \<Rightarrow> hook \<Rightarrow> hook" where
  "clearTimeout handle s =
     (case handle of
        None \<Rightarrow> s
      | Some h \<Rightarrow> s\<lparr>timers := filter (\<lambda>t. fst t \<noteq> h) (timers s)\<rparr>)"

definition setTimeout :: "string list \<Rightarrow> nat \<Rightarrow> hook \<Rightarrow> nat \<times> hook" where
  "setTimeout terms delay s =
     (next_handle s,
      s\<lparr>timers := timers s @ [(next_handle s, now s + delay, terms)],
        next_handle := Suc (next_handle s)\<rparr>)"

text \<open>The effect body, lines 33 to 36 and 78, run by React when \<^verbatim>\<open>query\<close> has changed.\<close>

definition useEffect :: "hook \<Rightarrow> hook" where
  "useEffect s =
     (let terms = tokenize (query s);
          s1 = s\<lparr>results := None\<rparr>;
          s2 = clearTimeout (searchDebounce s1) s1
      in case setTimeout terms 250 s2 of
           (searchId, s3) \<Rightarrow> s3\<lparr>searchDebounce := Some searchId\<rparr>)"

text \<open>Line 37: the timer callback starts and calls \<^verbatim>\<open>client.search\<close> with the terms.\<close>

definition callback_start :: "nat \<Rightarrow> string list \<Rightarrow> hook \<Rightarrow> hook" where
  "callback_start searchId terms s =
     s\<lparr>search_calls := search_calls s @ [terms],
       awaiting_search := awaiting_search s @ [searchId]\<rparr>"

text \<open>
  Lines 37 to 41: the index query has settled. A rejection ends the callback; so does the
  guard of line 38; otherwise one fetch per title is issued and the callback waits for all.
\<close>

definition callback_after_search :: "nat \<Rightarrow> error + SearchResponse \<Rightarrow> hook \<Rightarrow> hook" where
  "callback_after_search searchId settled s =
     (case settled of
        Inl e \<Rightarrow> s
      | Inr titles \<Rightarrow>
          if Some searchId \<noteq> searchDebounce s then s
          else s\<lparr>fetch_calls := fetch_calls s @ search_results titles,
                 awaiting_fetch := awaiting_fetch s @ [(searchId, titles)]\<rparr>)"

text \<open>
  Lines 41 to 77: all fetches have settled. A rejection ends the callback; otherwise the
  articles are classified and \<^verbatim>\<open>setResults\<close> is called, with no further guard.
\<close>

definition callback_after_fetch ::
  "nat \<Rightarrow> SearchResponse \<Rightarrow> fetch_result list \<Rightarrow> hook \<Rightarrow> hook" where
  "callback_after_fetch searchId titles settled s =
     (case promise_all (map fetch_summary settled) of
        Inl e \<Rightarrow> s
      | Inr articles \<Rightarrow>
          s\<lparr>results := Some (fulfilled articles titles),
            commits := commits s @ [(searchId, fulfilled articles titles)]\<rparr>)"

text \<open>
  What can happen to the hook: the caller sets the query, time passes, a due timer runs
  its callback, the index query of a callback settles, the fetches of a callback settle.
\<close>

datatype event =
    SetQuery string
  | Advance nat
  | TimerFires nat
  | SearchSettles nat "error + SearchResponse"
  | FetchesSettle nat "fetch_result list"

fun enabled :: "event \<Rightarrow> hook \<Rightarrow> bool" where
  "enabled (SetQuery q) s = True"
| "enabled (Advance d) s = True"
| "enabled (TimerFires h) s =
     (case map_of (timers s) h of None \<Rightarrow> False | Some (due, terms) \<Rightarrow> due \<le> now s)"
| "enabled (SearchSettles h settled) s = (h \<in> set (awaiting_search s))"
| "enabled (FetchesSettle h settled) s =
     (case map_of (awaiting_fetch s) h of
        None \<Rightarrow> False
      | Some titles \<Rightarrow> length settled = length (search_results titles))"

fun step :: "event \<Rightarrow> hook \<Rightarrow> hook" where
  "step (SetQuery q) s = (if q = query s then s else useEffect (s\<lparr>query := q\<rparr>))"
| "step (Advance d) s = s\<lparr>now := now s + d\<rparr>"
| "step (TimerFires h) s =
     (case map_of (timers s) h of
        None \<Rightarrow> s
      | Some (due, terms) \<Rightarrow>
          callback_start h terms (s\<lparr>timers := filter (\<lambda>t. fst t \<noteq> h) (timers s)\<rparr>))"
| "step (SearchSettles h settled) s =
     callback_after_search h settled
       (s\<lparr>awaiting_search := removeAll h (awaiting_search s)\<rparr>)"
| "step (FetchesSettle h settled) s =
     (case map_of (awaiting_fetch s) h of
        None \<Rightarrow> s
      | Some titles \<Rightarrow>
          callback_after_fetch h titles settled
            (s\<lparr>awaiting_fetch := filter (\<lambda>a. fst a \<noteq> h) (awaiting_fetch s)\<rparr>))"

text \<open>A run is a list of events, each enabled where it happens.\<close>

fun run :: "event list \<Rightarrow> hook \<Rightarrow> hook option" where
  "run [] s = Some s"
| "run (e # es) s = (if enabled e s then run es (step e s) else None)"

text \<open>The first render: the initial values of lines 28 to 30, then the effect.\<close>

definition unmounted :: hook where
  "unmounted =
     \<lparr>query = [], results = None, searchDebounce = None, now = 0, next_handle = 1,
      timers = [], awaiting_search = [], awaiting_fetch = [], search_calls = [],
      fetch_calls = [], commits = []\<rparr>"

definition mounted :: hook where
  "mounted = useEffect unmounted"

subsection \<open>Well-formed states\<close>

text \<open>
  The handles of the callbacks that have not finished: a pending timer, a callback
  waiting for the index, a callback waiting for its fetches.
\<close>

definition in_flight :: "hook \<Rightarrow> nat list" where
  "in_flight s = map fst (timers s) @ awaiting_search s @ map fst (awaiting_fetch s)"

text \<open>
  What the browser and the effect guarantee in every state the hook can reach: a handle
  is in one place at a time; every handle in use is older than the next one
  \<^verbatim>\<open>setTimeout\<close> returns; a callback that has called \<^verbatim>\<open>setResults\<close> is finished;
  a pending timer is the one \<^verbatim>\<open>searchDebounce.current\<close> names.
\<close>

definition wf :: "hook \<Rightarrow> bool" where
  "wf s =
     (distinct (in_flight s)
      \<and> (\<forall>h \<in> set (in_flight s). h < next_handle s)
      \<and> (\<forall>h \<in> fst ` set (commits s). h < next_handle s \<and> h \<notin> set (in_flight s))
      \<and> (\<forall>h \<in> fst ` set (timers s). searchDebounce s = Some h)
      \<and> (\<forall>h. searchDebounce s = Some h \<longrightarrow> h < next_handle s))"

subsection \<open>Bursts of submissions\<close>

text \<open>The events at which a timer callback starts.\<close>

fun is_fire :: "event \<Rightarrow> bool" where
  "is_fire (TimerFires h) = True"
| "is_fire e = False"

text \<open>
  \<open>quiet current elapsed es\<close>: in the events \<open>es\<close>, every submission (a
  \<open>SetQuery\<close> that changes the query, \<open>current\<close> being the query before) comes less
  than 250 time units after the submission before it, \<open>elapsed\<close> being the time since
  the last one.
\<close>

fun quiet :: "string \<Rightarrow> nat \<Rightarrow> event list \<Rightarrow> bool" where
  "quiet current elapsed [] = True"
| "quiet current elapsed (SetQuery q # es) =
     (if q = current then quiet current elapsed es
      else elapsed < 250 \<and> quiet q 0 es)"
| "quiet current elapsed (Advance d # es) = quiet current (elapsed + d) es"
| "quiet current elapsed (e # es) = quiet current elapsed es"

text \<open>
  The time since the last submission at the end of the events \<open>es\<close>, with the same
  bookkeeping.
\<close>

fun since_submission :: "string \<Rightarrow> nat \<Rightarrow> event list \<Rightarrow> nat" where
  "since_submission current elapsed [] = elapsed"
| "since_submission current elapsed (SetQuery q # es) =
     (if q = current then since_submission current elapsed es
      else since_submission q 0 es)"
| "since_submission current elapsed (Advance d # es) =
     since_submission current (elapsed + d) es"
| "since_submission current elapsed (e # es) = since_submission current elapsed es"

text \<open>
  \<open>elapsed\<close> time units after the last submission, a pending timer is due 250 after that
  submission and carries the terms of the current query, and no timer is pending only
  once 250 have passed.
\<close>

definition debounced :: "nat \<Rightarrow> hook \<Rightarrow> bool" where
  "debounced elapsed s =
     ((timers s = [] \<longrightarrow> 250 \<le> elapsed)
      \<and> (\<forall>t \<in> set (timers s).
            fst (snd t) + elapsed = now s + 250 \<and> snd (snd t) = tokenize (query s)))"

subsection \<open>Predicates of the statements\<close>

text \<open>A fetch that the server answered with a status outside 200 to 299.\<close>

definition non_success :: "fetch_result \<Rightarrow> bool" where
  "non_success res =
     (case res of FetchRejected \<Rightarrow> False | Response status b \<Rightarrow> status < 200 \<or> status > 299)"

text \<open>
  A resolution that succeeds, said of the response alone: a status from 200 to 299 and a
  JSON body that names the page's desktop URL.
\<close>

definition success :: "fetch_result \<Rightarrow> bool" where
  "success res =
     (case res of
        FetchRejected \<Rightarrow> False
      | Response status b \<Rightarrow>
          200 \<le> status \<and> status \<le> 299
          \<and> (case b of
                 NotJson \<Rightarrow> False
               | Json metadata \<Rightarrow> content_urls_desktop_page metadata \<noteq> None))"

text \<open>
  The outcome the specification gives a response, said of the response alone: no summary
  for a status outside 200 to 299, and for a success the summary of the page (its id, title,
  URL, optional image and the two excerpts).
\<close>

definition expected_summary :: "fetch_result \<Rightarrow> WikipediaPageSummary option" where
  "expected_summary res =
     (case res of
        FetchRejected \<Rightarrow> None
      | Response status b \<Rightarrow>
          (case b of
             NotJson \<Rightarrow> None
           | Json metadata \<Rightarrow>
               if 200 \<le> status \<and> status \<le> 299 then
                 (case content_urls_desktop_page metadata of
                    None \<Rightarrow> None
                  | Some page \<Rightarrow>
                      Some \<lparr>article_id = pageid metadata,
                            title = md_title metadata,
                            titleHtml = displaytitle metadata,
                            url = page,
                            image_src = thumbnail_source metadata,
                            extract_text = md_extract metadata,
                            extractHtml = extract_html metadata\<rparr>)
               else None))"

text \<open>
  The events at which a callback may call \<^verbatim>\<open>setResults\<close> with a result.
\<close>

fun is_fetch_settle :: "event \<Rightarrow> bool" where
  "is_fetch_settle (FetchesSettle h settled) = True"
| "is_fetch_settle e = False"

text \<open>No entity id twice in the two sequences of a result taken together.\<close>

definition deduplicated :: "FulfilledSearchResults \<Rightarrow> bool" where
  "deduplicated r = distinct (map article_id (fullArticles r @ basicArticles r))"

subsection \<open>Example data\<close>

text \<open>
  A summary response for page \<open>i\<close> titled \<open>t\<close> with thumbnail \<open>img\<close>, the summary
  lines 47 to 55 build from it, and an index response.
\<close>

definition page_metadata :: "int \<Rightarrow> string \<Rightarrow> string option \<Rightarrow> PageMetadata" where
  "page_metadata i t img =
     \<lparr>pageid = i, md_title = t, displaytitle = t, content_urls_desktop_page = Some t,
      thumbnail_source = img, md_extract = [], extract_html = []\<rparr>"

definition page_summary :: "int \<Rightarrow> string \<Rightarrow> string option \<Rightarrow> WikipediaPageSummary" where
  "page_summary i t img =
     \<lparr>article_id = i, title = t, titleHtml = t, url = t, image_src = img,
      extract_text = [], extractHtml = []\<rparr>"

definition index_response :: "string list \<Rightarrow> bool \<Rightarrow> SearchResponse" where
  "index_response ts m = \<lparr>search_results = ts, search_more = m\<rparr>"

text \<open>
  Four titles: the second fetch answers 404, the first and the third resolve to the same
  entity id, the first has a thumbnail.
\<close>

definition example_articles :: "WikipediaPageSummary option list" where
  "example_articles =
     [Some (page_summary 7 ''A'' (Some ''img'')), None,
      Some (page_summary 7 ''A2'' None), Some (page_summary 8 ''B'' None)]"

definition example_settled :: "fetch_result list" where
  "example_settled =
     [Response 200 (Json (page_metadata 7 ''A'' (Some ''img''))), Response 404 NotJson,
      Response 200 (Json (page_metadata 7 ''A2'' None)),
      Response 200 (Json (page_metadata 8 ''B'' None))]"

text \<open>
  After the first render (handle 1) the query is set to a (handle 2), the timer fires at
  250, the index answers with the four titles and the four fetches settle.
\<close>

definition example_run :: "event list" where
  "example_run =
     [SetQuery ''a'', Advance 250, TimerFires 2,
      SearchSettles 2 (Inr (index_response [''A'', ''X'', ''A2'', ''B''] True)),
      FetchesSettle 2 example_settled]"

text \<open>
  Three titles, of which the second fetch answers 404; the run stops where the callback
  waits for the three fetches.
\<close>

definition partial_settled :: "fetch_result list" where
  "partial_settled =
     [Response 200 (Json (page_metadata 7 ''A'' (Some ''img''))), Response 404 NotJson,
      Response 200 (Json (page_metadata 8 ''B'' None))]"

definition partial_run :: "event list" where
  "partial_run =
     [SetQuery ''a'', Advance 250, TimerFires 2,
      SearchSettles 2 (Inr (index_response [''A'', ''X'', ''B''] False))]"

text \<open>
  The first attempt (handle 2) up to its index query, and a second attempt (handle 3) from
  its submission to its commit.
\<close>

definition first_attempt :: "event list" where
  "first_attempt = [SetQuery ''a'', Advance 250, TimerFires 2]"

definition second_attempt :: "event list" where
  "second_attempt =
     [SetQuery ''ab'', Advance 250, TimerFires 3,
      SearchSettles 3 (Inr (index_response [''B''] False)),
      FetchesSettle 3 [Response 200 (Json (page_metadata 8 ''B'' None))]]"

text \<open>
  The first attempt waits for the index when the query changes.
\<close>

definition superseded_attempt :: "event list" where
  "superseded_attempt = first_attempt @ [SetQuery ''ab'']"

text \<open>
  A query of blanks, and the timer of its submission fired \<open>d\<close> later.
\<close>

definition whitespace_attempt :: "nat \<Rightarrow> event list" where
  "whitespace_attempt d = [SetQuery ''   '', Advance d, TimerFires 2]"

text \<open>
  What follows a submission at time 0: a second submission at 100, and its timer at 350.
\<close>

definition burst :: "event list" where
  "burst = [Advance 100, SetQuery ''ab'', Advance 250, TimerFires 3]"

text \<open>
  The first attempt waits for its fetch while the second one runs to its commit; then the
  fetch of the first settles.
\<close>

definition stale_run :: "event list" where
  "stale_run =
     first_attempt @ [SearchSettles 2 (Inr (index_response [''A''] False))] @ second_attempt
     @ [FetchesSettle 2 [Response 200 (Json (page_metadata 7 ''A'' None))]]"

text \<open>
  The first attempt waits for its fetch when the query changes.
\<close>

definition stale_pending_run :: "event list" where
  "stale_pending_run =
     first_attempt @ [SearchSettles 2 (Inr (index_response [''A''] False)), SetQuery ''ab'']"

text \<open>
  The second attempt waits for the index when the fetch of the first, superseded one
  settles.
\<close>

definition stale_failure_run :: "event list" where
  "stale_failure_run =
     stale_pending_run
     @ [Advance 250, TimerFires 3,
        FetchesSettle 2 [Response 200 (Json (page_metadata 7 ''A'' None))]]"

section \<open>Proofs\<close>

subsection \<open>Tokenizer: proofs\<close>







subsection \<open>Well-formed states are preserved\<close>

lemma useEffect_eq:
  "useEffect s =
     s\<lparr>results := None,
       timers := (case searchDebounce s of None \<Rightarrow> timers s
                  | Some h \<Rightarrow> filter (\<lambda>t. fst t \<noteq> h) (timers s))
                 @ [(next_handle s, now s + 250, tokenize (query s))],
       next_handle := Suc (next_handle s),
       searchDebounce := Some (next_handle s)\<rparr>"
  by (simp add: useEffect_def clearTimeout_def setTimeout_def Let_def split: option.splits)

lemma wf_timers_cleared:
  assumes "wf s"
  shows "(case searchDebounce s of None \<Rightarrow> timers s
          | Some h \<Rightarrow> filter (\<lambda>t. fst t \<noteq> h) (timers s)) = []"
proof (cases "searchDebounce s")
  case None
  with assms have "fst ` set (timers s) = {}" unfolding wf_def by auto
  with None show ?thesis by simp
next
  case (Some h)
  with assms have "\<forall>t \<in> set (timers s). fst t = h" unfolding wf_def by auto
  with Some show ?thesis by (simp add: filter_empty_conv)
qed

lemma useEffect_wf:
  assumes "wf s"
  shows "useEffect s =
     s\<lparr>results := None,
       timers := [(next_handle s, now s + 250, tokenize (query s))],
       next_handle := Suc (next_handle s),
       searchDebounce := Some (next_handle s)\<rparr>"
  using wf_timers_cleared [OF assms] by (simp add: useEffect_eq)

lemma wf_useEffect: "wf s \<Longrightarrow> wf (useEffect s)"
  by (simp add: useEffect_wf) (auto simp: wf_def in_flight_def less_Suc_eq)

lemma wf_query: "wf (s\<lparr>query := q\<rparr>) = wf s"
  by (simp add: wf_def in_flight_def)

lemma map_of_fst_in: "map_of xs k = Some v \<Longrightarrow> k \<in> fst ` set xs"
  by (metis map_of_SomeD fst_conv image_eqI)

lemma distinct_filter_fst:
  "distinct (map fst xs) \<Longrightarrow> distinct (map fst (filter P xs))"
  by (induction xs) auto

lemma wfI:
  assumes "distinct (in_flight s)"
    and "\<And>h. h \<in> set (in_flight s) \<Longrightarrow> h < next_handle s"
    and "\<And>h. h \<in> fst ` set (commits s) \<Longrightarrow> h < next_handle s \<and> h \<notin> set (in_flight s)"
    and "\<And>h. h \<in> fst ` set (timers s) \<Longrightarrow> searchDebounce s = Some h"
    and "\<And>h. searchDebounce s = Some h \<Longrightarrow> h < next_handle s"
  shows "wf s"
  using assms unfolding wf_def by blast

lemma distinct_in_flight:
  "distinct (in_flight s) =
     (distinct (map fst (timers s)) \<and> distinct (awaiting_search s)
      \<and> distinct (map fst (awaiting_fetch s))
      \<and> fst ` set (timers s) \<inter> set (awaiting_search s) = {}
      \<and> fst ` set (timers s) \<inter> fst ` set (awaiting_fetch s) = {}
      \<and> set (awaiting_search s) \<inter> fst ` set (awaiting_fetch s) = {})"
  by (auto simp: in_flight_def)

lemma set_in_flight:
  "set (in_flight s) =
     fst ` set (timers s) \<union> set (awaiting_search s) \<union> fst ` set (awaiting_fetch s)"
  by (auto simp: in_flight_def)

lemma fst_set_filter: "fst ` set (filter (\<lambda>t. fst t \<noteq> h) xs) = fst ` set xs - {h}"
  by (induction xs) auto

lemma wfD:
  assumes "wf s"
  shows "distinct (in_flight s)"
    and "h \<in> set (in_flight s) \<Longrightarrow> h < next_handle s"
    and "h \<in> fst ` set (commits s) \<Longrightarrow> h < next_handle s"
    and "h \<in> fst ` set (commits s) \<Longrightarrow> h \<notin> set (in_flight s)"
    and "h \<in> fst ` set (timers s) \<Longrightarrow> searchDebounce s = Some h"
    and "searchDebounce s = Some h \<Longrightarrow> h < next_handle s"
  using assms unfolding wf_def by blast+

lemma wf_timer_fires:
  assumes wf: "wf s" and m: "map_of (timers s) h = Some (due, terms)"
  shows "wf (callback_start h terms (s\<lparr>timers := filter (\<lambda>t. fst t \<noteq> h) (timers s)\<rparr>))"
    (is "wf ?s'")
proof -
  have h: "h \<in> fst ` set (timers s)" using m by (rule map_of_fst_in)
  have d: "distinct (in_flight s)" using wf by (rule wfD(1))
  have tm: "timers ?s' = filter (\<lambda>t. fst t \<noteq> h) (timers s)"
    and aw: "awaiting_search ?s' = awaiting_search s @ [h]"
    and af: "awaiting_fetch ?s' = awaiting_fetch s"
    by (simp_all add: callback_start_def)
  have st: "set (in_flight ?s') = set (in_flight s)"
    unfolding set_in_flight tm aw af fst_set_filter using h by auto
  have dd: "distinct (in_flight ?s')"
    using d h unfolding distinct_in_flight tm aw af fst_set_filter
    by (simp add: distinct_filter_fst) blast
  show ?thesis
  proof (rule wfI)
    show "distinct (in_flight ?s')" by (rule dd)
    show "h' < next_handle ?s'" if "h' \<in> set (in_flight ?s')" for h'
      using that wfD(2) [OF wf, of h'] unfolding st by (simp add: callback_start_def)
    show "h' < next_handle ?s' \<and> h' \<notin> set (in_flight ?s')"
      if "h' \<in> fst ` set (commits ?s')" for h'
      using that wfD(3,4) [OF wf, of h'] unfolding st by (simp add: callback_start_def)
    show "searchDebounce ?s' = Some h'" if "h' \<in> fst ` set (timers ?s')" for h'
    proof -
      from that have "h' \<in> fst ` set (timers s)" by (auto simp: callback_start_def)
      from wfD(5) [OF wf this] show ?thesis by (simp add: callback_start_def)
    qed
    show "h' < next_handle ?s'" if "searchDebounce ?s' = Some h'" for h'
      using that wfD(6) [OF wf, of h'] by (simp add: callback_start_def)
  qed
qed

lemma wf_search_settles:
  assumes wf: "wf s" and en: "h \<in> set (awaiting_search s)"
  shows "wf (callback_after_search h settled
               (s\<lparr>awaiting_search := removeAll h (awaiting_search s)\<rparr>))"
    (is "wf ?s'")
proof -
  have d: "distinct (in_flight s)" using wf by (rule wfD(1))
  have tm: "timers ?s' = timers s"
    and aw: "awaiting_search ?s' = removeAll h (awaiting_search s)"
    by (simp_all add: callback_after_search_def split: sum.splits)
  have af: "awaiting_fetch ?s' = awaiting_fetch s
            \<or> (\<exists>titles. awaiting_fetch ?s' = awaiting_fetch s @ [(h, titles)])"
    by (simp add: callback_after_search_def split: sum.splits)
  have sub: "set (in_flight ?s') \<subseteq> set (in_flight s)"
    unfolding set_in_flight tm aw using af en by auto
  have dd: "distinct (in_flight ?s')"
    using af
  proof
    assume "awaiting_fetch ?s' = awaiting_fetch s"
    with d show ?thesis
      unfolding distinct_in_flight tm aw by (simp add: distinct_removeAll) blast
  next
    assume "\<exists>titles. awaiting_fetch ?s' = awaiting_fetch s @ [(h, titles)]"
    then obtain titles where "awaiting_fetch ?s' = awaiting_fetch s @ [(h, titles)]" ..
    with d en show ?thesis
      unfolding distinct_in_flight tm aw by (simp add: distinct_removeAll) blast
  qed
  show ?thesis
  proof (rule wfI)
    show "distinct (in_flight ?s')" by (rule dd)
    show "h' < next_handle ?s'" if "h' \<in> set (in_flight ?s')" for h'
    proof -
      from that sub have "h' \<in> set (in_flight s)" by blast
      with wf have "h' < next_handle s" by (simp add: wfD(2))
      then show ?thesis by (simp add: callback_after_search_def split: sum.splits)
    qed
    show "h' < next_handle ?s' \<and> h' \<notin> set (in_flight ?s')"
      if "h' \<in> fst ` set (commits ?s')" for h'
    proof -
      from that have "h' \<in> fst ` set (commits s)"
        by (simp add: callback_after_search_def split: sum.splits if_splits)
      with wf have "h' < next_handle s \<and> h' \<notin> set (in_flight s)"
        using wfD(3,4) by blast
      with sub show ?thesis by (auto simp: callback_after_search_def split: sum.splits)
    qed
    show "searchDebounce ?s' = Some h'" if "h' \<in> fst ` set (timers ?s')" for h'
    proof -
      from that have "h' \<in> fst ` set (timers s)"
        by (simp add: callback_after_search_def split: sum.splits if_splits)
      with wf have "searchDebounce s = Some h'" by (rule wfD(5))
      then show ?thesis by (simp add: callback_after_search_def split: sum.splits)
    qed
    show "h' < next_handle ?s'" if "searchDebounce ?s' = Some h'" for h'
    proof -
      from that have "searchDebounce s = Some h'"
        by (simp add: callback_after_search_def split: sum.splits if_splits)
      with wf have "h' < next_handle s" by (rule wfD(6))
      then show ?thesis by (simp add: callback_after_search_def split: sum.splits)
    qed
  qed
qed

lemma wf_fetches_settle:
  assumes wf: "wf s" and m: "map_of (awaiting_fetch s) h = Some titles"
  shows "wf (callback_after_fetch h titles settled
               (s\<lparr>awaiting_fetch := filter (\<lambda>a. fst a \<noteq> h) (awaiting_fetch s)\<rparr>))"
    (is "wf ?s'")
proof -
  have h: "h \<in> fst ` set (awaiting_fetch s)" using m by (rule map_of_fst_in)
  have d: "distinct (in_flight s)" using wf by (rule wfD(1))
  have tm: "timers ?s' = timers s"
    and aw: "awaiting_search ?s' = awaiting_search s"
    and af: "awaiting_fetch ?s' = filter (\<lambda>a. fst a \<noteq> h) (awaiting_fetch s)"
    by (simp_all add: callback_after_fetch_def split: sum.splits)
  have st: "set (in_flight ?s') = set (in_flight s) - {h}"
    using d h unfolding distinct_in_flight set_in_flight tm aw af fst_set_filter by blast
  have dd: "distinct (in_flight ?s')"
    using d unfolding distinct_in_flight tm aw af fst_set_filter
    by (simp add: distinct_filter_fst) blast
  have cm: "fst ` set (commits ?s') \<subseteq> insert h (fst ` set (commits s))"
    by (auto simp: callback_after_fetch_def split: sum.splits)
  have hn: "h < next_handle s"
    using h by (intro wfD(2) [OF wf]) (simp add: set_in_flight)
  have nh: "next_handle ?s' = next_handle s"
    by (simp add: callback_after_fetch_def split: sum.splits)
  show ?thesis
  proof (rule wfI)
    show "distinct (in_flight ?s')" by (rule dd)
    show "h' < next_handle ?s'" if "h' \<in> set (in_flight ?s')" for h'
      using that wfD(2) [OF wf, of h'] by (simp add: st nh)
    show "h' < next_handle ?s' \<and> h' \<notin> set (in_flight ?s')"
      if "h' \<in> fst ` set (commits ?s')" for h'
    proof -
      from that cm have "h' = h \<or> h' \<in> fst ` set (commits s)" by blast
      then show ?thesis
      proof
        assume "h' = h"
        with hn show ?thesis by (simp add: st nh)
      next
        assume "h' \<in> fst ` set (commits s)"
        with wf have "h' < next_handle s \<and> h' \<notin> set (in_flight s)"
          using wfD(3,4) by blast
        then show ?thesis by (simp add: st nh)
      qed
    qed
    show "searchDebounce ?s' = Some h'" if "h' \<in> fst ` set (timers ?s')" for h'
    proof -
      from that have "h' \<in> fst ` set (timers s)"
        by (simp add: callback_after_fetch_def split: sum.splits)
      with wf have "searchDebounce s = Some h'" by (rule wfD(5))
      then show ?thesis by (simp add: callback_after_fetch_def split: sum.splits)
    qed
    show "h' < next_handle ?s'" if "searchDebounce ?s' = Some h'" for h'
    proof -
      from that have "searchDebounce s = Some h'"
        by (simp add: callback_after_fetch_def split: sum.splits)
      with wf show ?thesis by (simp add: wfD(6) nh)
    qed
  qed
qed

lemma wf_step:
  assumes "wf s" and "enabled e s"
  shows "wf (step e s)"
proof (cases e)
  case (SetQuery q)
  with assms wf_useEffect [of "s\<lparr>query := q\<rparr>"] show ?thesis
    by (simp add: wf_query)
next
  case (Advance d)
  with assms show ?thesis by (simp add: wf_def in_flight_def)
next
  case (TimerFires h)
  with assms show ?thesis
    by (auto split: option.splits intro: wf_timer_fires)
next
  case (SearchSettles h settled)
  with assms show ?thesis by (simp add: wf_search_settles)
next
  case (FetchesSettle h settled)
  with assms show ?thesis
    by (auto split: option.splits intro: wf_fetches_settle)
qed

lemma wf_mounted: "wf mounted"
  unfolding mounted_def by (rule wf_useEffect) (simp add: wf_def in_flight_def unmounted_def)

lemma wf_run: "wf s \<Longrightarrow> run es s = Some s' \<Longrightarrow> wf s'"
  by (induction es arbitrary: s) (auto split: if_splits intro: wf_step)

subsection \<open>Deduplication and classification: proofs\<close>

lemma classify_loop_eq:
  "classify_loop articles seen full basic =
     (full @ filter (\<lambda>a. truthy (image_src a)) (first_by_id seen (succeeded articles)),
      basic @ filter (\<lambda>a. \<not> truthy (image_src a)) (first_by_id seen (succeeded articles)))"
  by (induction articles seen full basic rule: classify_loop.induct)
     (simp_all add: succeeded_def)

lemma first_by_id_unseen: "a \<in> set (first_by_id seen xs) \<Longrightarrow> article_id a \<notin> seen"
  by (induction seen xs rule: first_by_id.induct) (auto split: if_splits)

lemma first_by_id_ids:
  "article_id ` set (first_by_id seen xs) = article_id ` set xs - seen"
  by (induction seen xs rule: first_by_id.induct) auto

lemma first_by_id_distinct: "distinct (map article_id (first_by_id seen xs))"
proof (induction seen xs rule: first_by_id.induct)
  case (1 seen)
  show ?case by simp
next
  case (2 seen a as)
  have "article_id a \<notin> article_id ` set (first_by_id (insert (article_id a) seen) as)"
  proof
    assume "article_id a \<in> article_id ` set (first_by_id (insert (article_id a) seen) as)"
    then obtain x where x: "x \<in> set (first_by_id (insert (article_id a) seen) as)"
      and e: "article_id a = article_id x" by blast
    from first_by_id_unseen [OF x] e show False by simp
  qed
  with 2 show ?case by simp
qed

lemma first_by_id_first:
  "a \<in> set (first_by_id seen xs) \<Longrightarrow> find (\<lambda>b. article_id b = article_id a) xs = Some a"
proof (induction seen xs rule: first_by_id.induct)
  case (1 seen)
  then show ?case by simp
next
  case (2 seen x xs)
  show ?case
  proof (cases "article_id x \<in> seen")
    case True
    with 2 have a: "a \<in> set (first_by_id seen xs)" by simp
    from first_by_id_unseen [OF a] True have "article_id x \<noteq> article_id a" by auto
    with 2 True a show ?thesis by simp
  next
    case False
    show ?thesis
    proof (cases "a = x")
      case True
      then show ?thesis by simp
    next
      case ne: False
      with 2 False have a: "a \<in> set (first_by_id (insert (article_id x) seen) xs)" by simp
      from first_by_id_unseen [OF a] have "article_id x \<noteq> article_id a" by auto
      with 2 False a show ?thesis by simp
    qed
  qed
qed

lemma distinct_map_partition:
  "distinct (map f xs) \<Longrightarrow> distinct (map f (filter P xs @ filter (\<lambda>x. \<not> P x) xs))"
  by (induction xs) (auto simp: distinct_map_filter)

lemma fulfilled_eq:
  "fulfilled articles titles =
     \<lparr>fullArticles = filter (\<lambda>a. truthy (image_src a)) (first_by_id {} (succeeded articles)),
      basicArticles = filter (\<lambda>a. \<not> truthy (image_src a)) (first_by_id {} (succeeded articles)),
      count = length (first_by_id {} (succeeded articles)),
      more_flag = search_more titles\<rparr>"
  by (simp add: fulfilled_def classify_loop_eq sum_length_filter_compl)

lemma promise_all_map_Inr: "promise_all (map Inr vs) = Inr vs"
  by (induction vs) simp_all

lemma promise_all_Inr_D: "promise_all ps = Inr vs \<Longrightarrow> ps = map Inr vs"
  by (induction ps arbitrary: vs rule: promise_all.induct) (auto split: sum.splits)

subsection \<open>Finished callbacks\<close>

lemma step_frame:
  assumes "enabled e s"
  shows "set (in_flight (step e s)) \<subseteq> insert (next_handle s) (set (in_flight s))"
    and "next_handle s \<le> next_handle (step e s)"
    and "fst ` set (commits (step e s)) \<subseteq> fst ` set (commits s) \<union> set (in_flight s)"
proof -
  show "set (in_flight (step e s)) \<subseteq> insert (next_handle s) (set (in_flight s))"
    using assms
    by (cases e)
       (auto simp: set_in_flight useEffect_eq callback_start_def callback_after_search_def
          callback_after_fetch_def
          split: option.splits sum.splits if_splits dest: map_of_fst_in)
  show "next_handle s \<le> next_handle (step e s)"
    by (cases e)
       (auto simp: useEffect_eq callback_start_def callback_after_search_def
          callback_after_fetch_def split: option.splits sum.splits)
  show "fst ` set (commits (step e s)) \<subseteq> fst ` set (commits s) \<union> set (in_flight s)"
    by (cases e)
       (auto simp: set_in_flight useEffect_eq callback_start_def callback_after_search_def
          callback_after_fetch_def
          split: option.splits sum.splits dest: map_of_fst_in)
qed

lemma finished_never_commits:
  assumes "run es s = Some s'" and "h < next_handle s" and "h \<notin> set (in_flight s)"
    and "h \<notin> fst ` set (commits s)"
  shows "h \<notin> fst ` set (commits s') \<and> h \<notin> set (in_flight s')"
  using assms
proof (induction es arbitrary: s)
  case Nil
  then show ?case by simp
next
  case (Cons e es)
  from Cons.prems have en: "enabled e s" and r: "run es (step e s) = Some s'"
    by (simp_all split: if_splits)
  from step_frame [OF en] Cons.prems(2-4)
  have "h < next_handle (step e s)" "h \<notin> set (in_flight (step e s))"
    "h \<notin> fst ` set (commits (step e s))"
    by auto
  with Cons.IH [OF r] show ?case by blast
qed

subsection \<open>Debounce\<close>

lemma wf_single_timer:
  assumes wf: "wf s" and m: "map_of (timers s) h = Some v"
  shows "filter (\<lambda>t. fst t \<noteq> h) (timers s) = []"
proof -
  from m have "h \<in> fst ` set (timers s)" by (rule map_of_fst_in)
  from wfD(5) [OF wf this] have cur: "searchDebounce s = Some h" .
  have "fst t = h" if "t \<in> set (timers s)" for t
  proof -
    from that have "fst t \<in> fst ` set (timers s)" by blast
    from wfD(5) [OF wf this] cur show ?thesis by simp
  qed
  then show ?thesis by (simp add: filter_empty_conv)
qed

lemma no_fire_notin: "filter is_fire es = [] \<Longrightarrow> TimerFires h \<notin> set es"
  by (auto simp: filter_empty_conv)

lemma quiet_run:
  assumes "wf s" and "debounced e s" and "run es s = Some s'" and "quiet (query s) e es"
  shows "length (filter is_fire es) \<le> length (timers s)
         \<and> search_calls s' =
             search_calls s @ replicate (length (filter is_fire es)) (tokenize (query s'))
         \<and> (\<forall>h. TimerFires h \<in> set es \<longrightarrow> searchDebounce s' = Some h)
         \<and> (timers s = [] \<longrightarrow> query s' = query s \<and> searchDebounce s' = searchDebounce s)"
  using assms
proof (induction es arbitrary: s e)
  case Nil
  then show ?case by simp
next
  case (Cons ev es)
  from Cons.prems have en: "enabled ev s" and r: "run es (step ev s) = Some s'"
    by (simp_all split: if_splits)
  have wf': "wf (step ev s)" using Cons.prems(1) en by (rule wf_step)
  show ?case
  proof (cases ev)
    case (SetQuery q)
    show ?thesis
    proof (cases "q = query s")
      case True
      with SetQuery Cons.prems r Cons.IH [of s e] show ?thesis by simp
    next
      case False
      with SetQuery Cons.prems(4) have e: "e < 250" and q: "quiet q 0 es" by simp_all
      from e Cons.prems(2) have ne: "timers s \<noteq> []" by (auto simp: debounced_def)
      have wfq: "wf (s\<lparr>query := q\<rparr>)" using Cons.prems(1) by (simp add: wf_query)
      have st: "step ev s =
          s\<lparr>query := q, results := None,
            timers := [(next_handle s, now s + 250, tokenize q)],
            next_handle := Suc (next_handle s),
            searchDebounce := Some (next_handle s)\<rparr>"
        using SetQuery False useEffect_wf [OF wfq] by simp
      have d: "debounced 0 (step ev s)" by (simp add: st debounced_def)
      have "quiet (query (step ev s)) 0 es" using q by (simp add: st)
      from Cons.IH [OF wf' d r this]
      have ih: "length (filter is_fire es) \<le> 1"
        "search_calls s' =
           search_calls s @ replicate (length (filter is_fire es)) (tokenize (query s'))"
        "\<forall>h. TimerFires h \<in> set es \<longrightarrow> searchDebounce s' = Some h"
        unfolding st by simp_all
      from ne have "1 \<le> length (timers s)" by (cases "timers s") simp_all
      with ih ne SetQuery show ?thesis by simp
    qed
  next
    case (Advance d)
    have "debounced (e + d) (step ev s)"
      using Cons.prems(2) Advance by (auto simp: debounced_def)
    moreover have "quiet (query (step ev s)) (e + d) es"
      using Cons.prems(4) Advance by simp
    ultimately have ih: "length (filter is_fire es) \<le> length (timers (step ev s))
         \<and> search_calls s' = search_calls (step ev s)
               @ replicate (length (filter is_fire es)) (tokenize (query s'))
         \<and> (\<forall>h. TimerFires h \<in> set es \<longrightarrow> searchDebounce s' = Some h)
         \<and> (timers (step ev s) = [] \<longrightarrow>
               query s' = query (step ev s) \<and> searchDebounce s' = searchDebounce (step ev s))"
      using Cons.IH [OF wf' _ r, of "e + d"] by blast
    have eqs: "timers (step ev s) = timers s" "query (step ev s) = query s"
      "search_calls (step ev s) = search_calls s"
      "searchDebounce (step ev s) = searchDebounce s"
      using Advance by simp_all
    from ih show ?thesis unfolding eqs using Advance by simp
  next
    case (TimerFires h)
    with en obtain due terms where m: "map_of (timers s) h = Some (due, terms)"
      and due: "due \<le> now s"
      by (auto split: option.splits)
    from m have mem: "(h, due, terms) \<in> set (timers s)" by (rule map_of_SomeD)
    with Cons.prems(2) have e: "due + e = now s + 250" and tm: "terms = tokenize (query s)"
      by (auto simp: debounced_def)
    from e due have e250: "250 \<le> e" by simp
    from m have "h \<in> fst ` set (timers s)" by (rule map_of_fst_in)
    from wfD(5) [OF Cons.prems(1) this] have cur: "searchDebounce s = Some h" .
    have st: "step ev s =
        s\<lparr>timers := [], search_calls := search_calls s @ [tokenize (query s)],
          awaiting_search := awaiting_search s @ [h]\<rparr>"
      using TimerFires m tm wf_single_timer [OF Cons.prems(1) m]
      by (simp add: callback_start_def)
    have d: "debounced e (step ev s)" using e250 by (simp add: st debounced_def)
    have q: "quiet (query (step ev s)) e es"
      unfolding st using Cons.prems(4) TimerFires by simp
    from Cons.IH [OF wf' d r q]
    have nf: "filter is_fire es = []"
      and sc: "search_calls s' = search_calls s @ [tokenize (query s)]"
      and qs: "query s' = query s" and sd: "searchDebounce s' = Some h"
      unfolding st by (simp_all add: cur)
    from mem have ne: "1 \<le> length (timers s)" "timers s \<noteq> []"
      by (cases "timers s"; simp)+
    show ?thesis
      using nf sc qs sd ne TimerFires no_fire_notin [OF nf] by simp
  next
    case (SearchSettles h settled)
    have eqs: "timers (step ev s) = timers s" "query (step ev s) = query s"
      "now (step ev s) = now s" "search_calls (step ev s) = search_calls s"
      "searchDebounce (step ev s) = searchDebounce s"
      using SearchSettles by (simp_all add: callback_after_search_def split: sum.splits)
    have d: "debounced e (step ev s)" using Cons.prems(2) by (simp add: debounced_def eqs)
    have q: "quiet (query (step ev s)) e es"
      unfolding eqs using Cons.prems(4) SearchSettles by simp
    from Cons.IH [OF wf' d r q] show ?thesis unfolding eqs using SearchSettles by simp
  next
    case (FetchesSettle h settled)
    have eqs: "timers (step ev s) = timers s" "query (step ev s) = query s"
      "now (step ev s) = now s" "search_calls (step ev s) = search_calls s"
      "searchDebounce (step ev s) = searchDebounce s"
      using FetchesSettle
      by (simp_all add: callback_after_fetch_def split: sum.splits option.splits)
    have d: "debounced e (step ev s)" using Cons.prems(2) by (simp add: debounced_def eqs)
    have q: "quiet (query (step ev s)) e es"
      unfolding eqs using Cons.prems(4) FetchesSettle by simp
    from Cons.IH [OF wf' d r q] show ?thesis unfolding eqs using FetchesSettle by simp
  qed
qed

subsection \<open>Evaluation of the examples\<close>

lemmas callback_defs =
  useEffect_def clearTimeout_def setTimeout_def callback_start_def callback_after_search_def
  callback_after_fetch_def fetch_summary_def fulfilled_def truthy_def

lemma fetch_summary_page [simp]:
  "fetch_summary (Response 200 (Json (page_metadata i t img))) = Inr (Some (page_summary i t img))"
  by (simp add: fetch_summary_def page_metadata_def page_summary_def)

lemma tokenize_examples:
  "tokenize [] = []" "tokenize ''a'' = [''a'']" "tokenize ''ab'' = [''ab'']"
  "tokenize ''   '' = []"
  by code_simp+

lemma results_step:
  "results (step e s) = results s \<or> results (step e s) = None
   \<or> (\<exists>articles titles. results (step e s) = Some (fulfilled articles titles))"
  by (cases e)
     (auto simp: useEffect_eq callback_start_def callback_after_search_def
        callback_after_fetch_def split: option.splits sum.splits)

lemma commits_step:
  "commits (step e s) = commits s
   \<or> (\<exists>h articles titles. commits (step e s) = commits s @ [(h, fulfilled articles titles)])"
  by (cases e)
     (auto simp: useEffect_eq callback_start_def callback_after_search_def
        callback_after_fetch_def split: option.splits sum.splits)

lemma fulfilled_articles:
  "fullArticles (fulfilled articles titles) @ basicArticles (fulfilled articles titles)
     = filter (\<lambda>a. truthy (image_src a)) (first_by_id {} (succeeded articles))
       @ filter (\<lambda>a. \<not> truthy (image_src a)) (first_by_id {} (succeeded articles))"
  by (simp add: fulfilled_eq)

lemma fulfilled_set:
  "set (fullArticles (fulfilled articles titles) @ basicArticles (fulfilled articles titles))
     = set (first_by_id {} (succeeded articles))"
  unfolding fulfilled_articles by auto

lemma fulfilled_deduplicated: "deduplicated (fulfilled articles titles)"
  unfolding deduplicated_def fulfilled_articles
  by (rule distinct_map_partition) (rule first_by_id_distinct)

lemma step_deduplicated:
  assumes "\<forall>r. results s = Some r \<or> r \<in> snd ` set (commits s) \<longrightarrow> deduplicated r"
  shows "\<forall>r. results (step e s) = Some r \<or> r \<in> snd ` set (commits (step e s))
           \<longrightarrow> deduplicated r"
proof (intro allI impI)
  fix r
  assume "results (step e s) = Some r \<or> r \<in> snd ` set (commits (step e s))"
  then show "deduplicated r"
  proof
    assume r: "results (step e s) = Some r"
    from results_step [of e s] r
    have "results s = Some r \<or> (\<exists>articles titles. r = fulfilled articles titles)" by auto
    with assms show ?thesis by (auto simp: fulfilled_deduplicated)
  next
    assume r: "r \<in> snd ` set (commits (step e s))"
    from commits_step [of e s] r
    have "r \<in> snd ` set (commits s) \<or> (\<exists>articles titles. r = fulfilled articles titles)"
      by auto
    with assms show ?thesis by (auto simp: fulfilled_deduplicated)
  qed
qed

lemma run_deduplicated:
  assumes "run es s = Some s'"
    and "\<forall>r. results s = Some r \<or> r \<in> snd ` set (commits s) \<longrightarrow> deduplicated r"
  shows "\<forall>r. results s' = Some r \<or> r \<in> snd ` set (commits s') \<longrightarrow> deduplicated r"
  using assms
proof (induction es arbitrary: s)
  case Nil
  then show ?case by simp
next
  case (Cons e es)
  from Cons.prems have r: "run es (step e s) = Some s'" by (simp split: if_splits)
  from Cons.IH [OF r step_deduplicated [OF Cons.prems(2)]] show ?case .
qed

lemma fetch_summary_failed:
  "status < 200 \<or> status > 299 \<Longrightarrow> fetch_summary (Response status b) = Inr None"
  by (simp add: fetch_summary_def)

lemma example_outcomes: "promise_all (map fetch_summary example_settled) = Inr example_articles"
  by (simp add: example_settled_def example_articles_def fetch_summary_failed)

lemma example_fulfilled:
  "fulfilled example_articles titles =
     \<lparr>fullArticles = [page_summary 7 ''A'' (Some ''img'')],
      basicArticles = [page_summary 8 ''B'' None], count = 2,
      more_flag = search_more titles\<rparr>"
  by (simp add: fulfilled_def example_articles_def truthy_def page_summary_def)

lemma example_run_ok:
  "run example_run mounted = Some (fold step example_run mounted)"
  by (simp add: example_run_def mounted_def unmounted_def callback_defs tokenize_examples
      index_response_def example_settled_def)

lemma example_run_results:
  "results (fold step example_run mounted)
     = Some (fulfilled example_articles (index_response [''A'', ''X'', ''A2'', ''B''] True))"
  by (simp add: example_run_def mounted_def unmounted_def useEffect_def clearTimeout_def
      setTimeout_def callback_start_def callback_after_search_def callback_after_fetch_def
      tokenize_examples index_response_def example_outcomes)

lemma truthy_iff: "truthy img = (\<exists>src. img = Some src \<and> src \<noteq> [])"
  by (cases img) (simp_all add: truthy_def)

lemma not_truthy_iff: "(\<not> truthy img) = (img = None \<or> img = Some [])"
  by (cases img) (simp_all add: truthy_def)

lemma fetches_settle_commits:
  assumes "map_of (awaiting_fetch s) h = Some titles"
    and "promise_all (map fetch_summary settled) = Inr articles"
  shows "results (step (FetchesSettle h settled) s) = Some (fulfilled articles titles)"
    and "commits (step (FetchesSettle h settled) s)
           = commits s @ [(h, fulfilled articles titles)]"
  using assms by (simp_all add: callback_after_fetch_def)

lemma example_awaiting:
  "map_of (awaiting_fetch (fold step (butlast example_run) mounted)) 2
     = Some (index_response [''A'', ''X'', ''A2'', ''B''] True)"
  by (simp add: example_run_def mounted_def unmounted_def useEffect_def clearTimeout_def
      setTimeout_def callback_start_def callback_after_search_def tokenize_examples
      index_response_def)

lemma fetch_summary_expected:
  assumes "non_success res \<or> success res"
  shows "fetch_summary res = Inr (expected_summary res)"
    and "(expected_summary res = None) = non_success res"
proof -
  have "fetch_summary res = Inr (expected_summary res)
        \<and> (expected_summary res = None) = non_success res"
  proof (cases res)
    case FetchRejected
    with assms show ?thesis by (simp add: non_success_def success_def)
  next
    case (Response status b)
    show ?thesis
    proof (cases "status < 200 \<or> status > 299")
      case True
      with Response show ?thesis
        by (cases b) (auto simp: non_success_def expected_summary_def fetch_summary_def)
    next
      case False
      with Response assms obtain m page where b: "b = Json m"
        and p: "content_urls_desktop_page m = Some page"
        by (cases b) (auto simp: non_success_def success_def)
      from False Response b p show ?thesis
        by (simp add: non_success_def expected_summary_def fetch_summary_def)
    qed
  qed
  then show "fetch_summary res = Inr (expected_summary res)"
    and "(expected_summary res = None) = non_success res"
    by blast+
qed

lemma set_succeeded: "set (succeeded articles) = {a. Some a \<in> set articles}"
  by (induction articles) (auto simp: succeeded_def split: option.splits)

lemma expected_summary_ids:
  assumes "\<forall>res \<in> set settled. non_success res \<or> success res"
  shows "article_id ` set (succeeded (map expected_summary settled))
         = pageid ` {m. \<exists>status. Response status (Json m) \<in> set settled
                          \<and> 200 \<le> status \<and> status \<le> 299}"
    (is "?L = ?R")
proof (intro set_eqI iffI)
  fix i
  assume "i \<in> ?L"
  then obtain a where mem: "a \<in> set (succeeded (map expected_summary settled))"
    and i: "i = article_id a"
    by blast
  from mem have "Some a \<in> expected_summary ` set settled" by (simp add: set_succeeded)
  then obtain res where res: "res \<in> set settled" and a': "Some a = expected_summary res"
    by blast
  from a' have a: "expected_summary res = Some a" by simp
  from a obtain status b where r: "res = Response status b"
    by (cases res) (simp_all add: expected_summary_def)
  from a r obtain m where b: "b = Json m"
    by (cases b) (simp_all add: expected_summary_def)
  from a r b have st: "200 \<le> status \<and> status \<le> 299"
    by (simp add: expected_summary_def split: if_splits)
  from a r b st obtain page where p: "content_urls_desktop_page m = Some page"
    by (cases "content_urls_desktop_page m") (simp_all add: expected_summary_def)
  from a r b st p have "article_id a = pageid m"
    by (auto simp: expected_summary_def)
  with i have "i = pageid m" by simp
  moreover from res r b st
  have "m \<in> {m. \<exists>status. Response status (Json m) \<in> set settled
                 \<and> 200 \<le> status \<and> status \<le> 299}"
    by blast
  ultimately show "i \<in> ?R" by (rule image_eqI)
next
  fix i
  assume "i \<in> ?R"
  then obtain m status where res: "Response status (Json m) \<in> set settled"
    and st: "200 \<le> status" "status \<le> 299" and i: "i = pageid m"
    by blast
  from st have "\<not> non_success (Response status (Json m))" by (simp add: non_success_def)
  with assms res have "success (Response status (Json m))" by blast
  then obtain page where p: "content_urls_desktop_page m = Some page"
    by (auto simp: success_def)
  define a where "a = \<lparr>article_id = pageid m, title = md_title m,
      titleHtml = displaytitle m, url = page, image_src = thumbnail_source m,
      extract_text = md_extract m, extractHtml = extract_html m\<rparr>"
  have e: "expected_summary (Response status (Json m)) = Some a"
    using st p by (simp add: expected_summary_def a_def)
  have "Some a \<in> expected_summary ` set settled"
    using res e by (metis image_eqI)
  then have "a \<in> set (succeeded (map expected_summary settled))"
    by (simp add: set_succeeded)
  moreover have "i = article_id a" using i by (simp add: a_def)
  ultimately show "i \<in> ?L" by (rule image_eqI [rotated])
qed

lemma fulfilled_ids:
  "article_id ` set (fullArticles (fulfilled articles titles) @ basicArticles (fulfilled articles titles))
     = article_id ` set (succeeded articles)"
  unfolding fulfilled_set by (simp add: first_by_id_ids)

lemma length_first_by_id:
  "length (first_by_id {} xs) = card (article_id ` set xs)"
proof -
  have "card (article_id ` set (first_by_id {} xs)) = length (first_by_id {} xs)"
    using distinct_card [OF first_by_id_distinct [of "{}" xs]] by simp
  then show ?thesis by (simp add: first_by_id_ids)
qed

lemma partial_awaiting:
  "map_of (awaiting_fetch (fold step partial_run mounted)) 2
     = Some (index_response [''A'', ''X'', ''B''] False)"
  by (simp add: partial_run_def mounted_def unmounted_def useEffect_def clearTimeout_def
      setTimeout_def callback_start_def callback_after_search_def tokenize_examples
      index_response_def)

lemma partial_expected:
  "map expected_summary partial_settled
     = [Some (page_summary 7 ''A'' (Some ''img'')), None, Some (page_summary 8 ''B'' None)]"
  by (simp add: partial_settled_def expected_summary_def page_metadata_def page_summary_def)

lemma partial_fulfilled:
  "fulfilled [Some (page_summary 7 ''A'' (Some ''img'')), None, Some (page_summary 8 ''B'' None)]
     (index_response [''A'', ''X'', ''B''] False)
   = \<lparr>fullArticles = [page_summary 7 ''A'' (Some ''img'')],
      basicArticles = [page_summary 8 ''B'' None], count = 2, more_flag = False\<rparr>"
  by (simp add: fulfilled_def truthy_def page_summary_def index_response_def)

lemmas run_defs =
  mounted_def unmounted_def useEffect_def clearTimeout_def setTimeout_def callback_start_def
  callback_after_search_def callback_after_fetch_def tokenize_examples index_response_def

lemma step_keeps_cleared:
  "\<not> is_fetch_settle e \<Longrightarrow> results s = None \<Longrightarrow> results (step e s) = None"
  by (cases e)
     (auto simp: useEffect_eq callback_start_def callback_after_search_def
        split: option.splits sum.splits)

lemma run_keeps_cleared:
  "run es s = Some s' \<Longrightarrow> results s = None \<Longrightarrow> list_all (\<lambda>e. \<not> is_fetch_settle e) es
   \<Longrightarrow> results s' = None"
  by (induction es arbitrary: s) (auto split: if_splits simp: step_keeps_cleared)

lemma submission_clears: "q \<noteq> query s \<Longrightarrow> results (step (SetQuery q) s) = None"
  by (simp add: useEffect_eq)

lemma search_rejected_stops:
  "step (SearchSettles h (Inl e)) s = s\<lparr>awaiting_search := removeAll h (awaiting_search s)\<rparr>"
  by (simp add: callback_after_search_def)

lemma search_superseded_stops:
  "searchDebounce s \<noteq> Some h \<Longrightarrow>
   step (SearchSettles h (Inr titles)) s
     = s\<lparr>awaiting_search := removeAll h (awaiting_search s)\<rparr>"
  by (auto simp: callback_after_search_def)

lemma stopped_never_commits:
  assumes wf: "wf s" and h: "h \<in> set (awaiting_search s)"
    and r: "run es (s\<lparr>awaiting_search := removeAll h (awaiting_search s)\<rparr>) = Some s'"
  shows "h \<notin> fst ` set (commits s') \<and> h \<notin> set (in_flight s')"
proof -
  let ?s = "s\<lparr>awaiting_search := removeAll h (awaiting_search s)\<rparr>"
  from h have fl: "h \<in> set (in_flight s)" by (simp add: set_in_flight)
  have d: "distinct (in_flight s)" using wf by (rule wfD(1))
  have 1: "h < next_handle ?s" using wfD(2) [OF wf fl] by simp
  have 2: "h \<notin> set (in_flight ?s)"
    using d h unfolding distinct_in_flight set_in_flight by auto
  have 3: "h \<notin> fst ` set (commits ?s)"
    using wfD(4) [OF wf, of h] fl by auto
  from finished_never_commits [OF r 1 2 3] show ?thesis .
qed

lemma run_fold: "run es s = Some s' \<Longrightarrow> s' = fold step es s"
  by (induction es arbitrary: s) (auto split: if_splits)

lemma superseded_attempt_run:
  "run superseded_attempt mounted = Some (fold step superseded_attempt mounted)"
  by (simp add: superseded_attempt_def first_attempt_def run_defs)

lemma superseded_attempt_state:
  "fold step superseded_attempt mounted =
     \<lparr>query = ''ab'', results = None, searchDebounce = Some 3, now = 250, next_handle = 4,
      timers = [(3, 500, [''ab''])], awaiting_search = [2], awaiting_fetch = [],
      search_calls = [[''a'']], fetch_calls = [], commits = []\<rparr>"
  by (simp add: superseded_attempt_def first_attempt_def run_defs)

lemma submission_schedules:
  assumes "wf s" and "q \<noteq> query s"
  shows "step (SetQuery q) s =
     s\<lparr>query := q, results := None,
       timers := [(next_handle s, now s + 250, tokenize q)],
       next_handle := Suc (next_handle s),
       searchDebounce := Some (next_handle s)\<rparr>"
proof -
  have "wf (s\<lparr>query := q\<rparr>)" using assms(1) by (simp add: wf_query)
  from useEffect_wf [OF this] assms(2) show ?thesis by simp
qed

lemma effect_then_fire:
  assumes "wf s" and "250 \<le> d"
  shows "run [Advance d, TimerFires (next_handle s)] (useEffect s)
         = Some (useEffect s
                  \<lparr>now := now s + d, timers := [],
                   search_calls := search_calls s @ [tokenize (query s)],
                   awaiting_search := awaiting_search s @ [next_handle s]\<rparr>)"
  using assms(2) by (simp add: useEffect_wf [OF assms(1)] callback_start_def)

lemma burst_run: "run (SetQuery ''a'' # burst) mounted = Some (fold step (SetQuery ''a'' # burst) mounted)"
  by (simp add: burst_def run_defs)

lemma burst_state:
  "fold step (SetQuery ''a'' # burst) mounted =
     \<lparr>query = ''ab'', results = None, searchDebounce = Some 3, now = 350, next_handle = 4,
      timers = [], awaiting_search = [3], awaiting_fetch = [], search_calls = [[''ab'']],
      fetch_calls = [], commits = []\<rparr>"
  by (simp add: burst_def run_defs)

text \<open>
  A fetch whose promise rejects (the request fails, the body of a 2xx answer is not JSON or
  lacks the desktop URL) rejects \<^verbatim>\<open>Promise.all\<close>: the callback ends and commits nothing.
\<close>

lemma rejected_fetch_aborts:
  assumes "res \<in> set settled" and "fetch_summary res = Inl e"
  shows "results (step (FetchesSettle h settled) s) = results s
         \<and> commits (step (FetchesSettle h settled) s) = commits s"
proof -
  have "promise_all (map fetch_summary settled) \<noteq> Inr articles" for articles
  proof
    assume "promise_all (map fetch_summary settled) = Inr articles"
    then have "map fetch_summary settled = map Inr articles" by (rule promise_all_Inr_D)
    then have "\<forall>x \<in> set (map fetch_summary settled). \<exists>a. x = Inr a"
      by (metis (no_types, lifting) ex_map_conv)
    with assms show False by auto
  qed
  then show ?thesis
    by (auto simp: callback_after_fetch_def split: option.splits sum.splits)
qed

text \<open>
  Line 34 clears \<open>results\<close> at every submission, and a result that is shown is the one
  committed last.
\<close>

lemma shown_result_step:
  assumes "results s = None \<or> (commits s \<noteq> [] \<and> results s = Some (snd (last (commits s))))"
  shows "results (step e s) = None
         \<or> (commits (step e s) \<noteq> [] \<and> results (step e s) = Some (snd (last (commits (step e s)))))"
  using assms
  by (cases e)
     (auto simp: useEffect_eq callback_start_def callback_after_search_def
        callback_after_fetch_def split: option.splits sum.splits)

lemma shown_result_was_committed:
  assumes "run es mounted = Some s" and "results s = Some r"
  shows "commits s \<noteq> [] \<and> r = snd (last (commits s))"
proof -
  have "run es s0 = Some s \<Longrightarrow>
        results s0 = None \<or> (commits s0 \<noteq> [] \<and> results s0 = Some (snd (last (commits s0))))
        \<Longrightarrow> results s = None \<or> (commits s \<noteq> [] \<and> results s = Some (snd (last (commits s))))"
    for s0
  proof (induction es arbitrary: s0)
    case Nil
    then show ?case by simp
  next
    case (Cons e es)
    from Cons.prems(1) have "run es (step e s0) = Some s" by (simp split: if_splits)
    from Cons.IH [OF this shown_result_step [OF Cons.prems(2)]] show ?case .
  qed
  moreover have "results mounted = None" by (simp add: mounted_def useEffect_eq)
  ultimately show ?thesis using assms by auto
qed

subsection \<open>A timer fires no earlier than 250 after the last submission\<close>

lemma debounced_step:
  assumes wf: "wf s" and d: "debounced e s" and en: "enabled ev s"
    and q: "quiet (query s) e (ev # es)"
  shows "debounced (since_submission (query s) e [ev]) (step ev s)
         \<and> quiet (query (step ev s)) (since_submission (query s) e [ev]) es"
proof (cases ev)
  case (SetQuery q')
  show ?thesis
  proof (cases "q' = query s")
    case True
    with SetQuery d q show ?thesis by simp
  next
    case False
    from submission_schedules [OF wf False] SetQuery False q show ?thesis
      by (simp add: debounced_def del: step.simps)
  qed
next
  case (Advance n)
  with d q show ?thesis by (auto simp: debounced_def)
next
  case (TimerFires h)
  with en obtain due terms where m: "map_of (timers s) h = Some (due, terms)"
    and due: "due \<le> now s"
    by (auto split: option.splits)
  from m have "(h, due, terms) \<in> set (timers s)" by (rule map_of_SomeD)
  with d have "due + e = now s + 250" by (auto simp: debounced_def)
  with due have "250 \<le> e" by simp
  with TimerFires m q wf_single_timer [OF wf m] show ?thesis
    by (simp add: debounced_def callback_start_def)
next
  case (SearchSettles h settled)
  with d q show ?thesis
    by (simp add: debounced_def callback_after_search_def split: sum.splits)
next
  case (FetchesSettle h settled)
  with d q show ?thesis
    by (simp add: debounced_def callback_after_fetch_def split: sum.splits option.splits)
qed

lemma since_submission_Cons:
  "since_submission (query s) e (ev # es)
     = since_submission (query (step ev s)) (since_submission (query s) e [ev]) es"
  by (cases ev)
     (simp_all add: useEffect_eq callback_start_def callback_after_search_def
        callback_after_fetch_def split: option.splits sum.splits)

lemma quiet_prefix:
  assumes "wf s" and "debounced e s" and "run (pre @ post) s = Some s'"
    and "quiet (query s) e (pre @ post)"
  shows "\<exists>s1. run pre s = Some s1 \<and> run post s1 = Some s' \<and> wf s1
              \<and> debounced (since_submission (query s) e pre) s1"
  using assms
proof (induction pre arbitrary: s e)
  case Nil
  then show ?case by simp
next
  case (Cons ev pre)
  from Cons.prems(3) have en: "enabled ev s" and r: "run (pre @ post) (step ev s) = Some s'"
    by (simp_all split: if_splits)
  have wf': "wf (step ev s)" using Cons.prems(1) en by (rule wf_step)
  from Cons.prems(4) have q: "quiet (query s) e (ev # (pre @ post))" by simp
  from debounced_step [OF Cons.prems(1,2) en q]
  have d': "debounced (since_submission (query s) e [ev]) (step ev s)"
    and q': "quiet (query (step ev s)) (since_submission (query s) e [ev]) (pre @ post)"
    by blast+
  from Cons.IH [OF wf' d' r q'] obtain s1 where
    "run pre (step ev s) = Some s1" "run post s1 = Some s'" "wf s1"
    "debounced (since_submission (query (step ev s)) (since_submission (query s) e [ev]) pre) s1"
    by blast
  with en show ?case
    by (simp only: since_submission_Cons [of s e ev pre] run.simps if_True) blast
qed

lemma fires_after_interval:
  assumes "wf s" and "debounced e s" and "run (pre @ TimerFires h # post) s = Some s'"
    and "quiet (query s) e (pre @ TimerFires h # post)"
  shows "250 \<le> since_submission (query s) e pre"
proof -
  from quiet_prefix [OF assms] obtain s1 where
    r: "run (TimerFires h # post) s1 = Some s'"
    and d: "debounced (since_submission (query s) e pre) s1"
    by blast
  from r have "enabled (TimerFires h) s1" by (simp split: if_splits)
  then obtain due terms where m: "map_of (timers s1) h = Some (due, terms)"
    and due: "due \<le> now s1"
    by (auto split: option.splits)
  from m have "(h, due, terms) \<in> set (timers s1)" by (rule map_of_SomeD)
  with d have "due + since_submission (query s) e pre = now s1 + 250"
    by (auto simp: debounced_def)
  with due show ?thesis by simp
qed

subsection \<open>An index query that fails\<close>

text \<open>
  When the index query of a callback fails, the callback ends there: the state is what it
  was but for the finished callback, no fetch is issued, nothing is committed then or in any
  continuation of the run by this callback, and \<open>results\<close> is undefined when no fetches
  have settled since a submission.
\<close>

lemma index_failure_changes_nothing:
  assumes "wf s" and "h \<in> set (awaiting_search s)"
  shows "step (SearchSettles h (Inl e)) s
           = s\<lparr>awaiting_search := removeAll h (awaiting_search s)\<rparr>
         \<and> results (step (SearchSettles h (Inl e)) s) = results s
         \<and> commits (step (SearchSettles h (Inl e)) s) = commits s
         \<and> fetch_calls (step (SearchSettles h (Inl e)) s) = fetch_calls s
         \<and> (results s = None \<longrightarrow> results (step (SearchSettles h (Inl e)) s) = None)
         \<and> (\<forall>es s'. run es (step (SearchSettles h (Inl e)) s) = Some s'
               \<longrightarrow> h \<notin> fst ` set (commits s') \<and> h \<notin> set (in_flight s'))
         \<and> (\<forall>s0 q es0. q \<noteq> query s0 \<and> run es0 (step (SetQuery q) s0) = Some s
                 \<and> list_all (\<lambda>ev. \<not> is_fetch_settle ev) es0
               \<longrightarrow> results (step (SearchSettles h (Inl e)) s) = None)"
proof -
  have st: "step (SearchSettles h (Inl e)) s
              = s\<lparr>awaiting_search := removeAll h (awaiting_search s)\<rparr>"
    by (rule search_rejected_stops)
  have never: "\<forall>es s'. run es (step (SearchSettles h (Inl e)) s) = Some s'
               \<longrightarrow> h \<notin> fst ` set (commits s') \<and> h \<notin> set (in_flight s')"
    unfolding st using stopped_never_commits [OF assms] by blast
  have cleared: "results s = None"
    if "q \<noteq> query s0" and "run es0 (step (SetQuery q) s0) = Some s"
      and "list_all (\<lambda>ev. \<not> is_fetch_settle ev) es0" for s0 q es0
    using run_keeps_cleared [OF that(2) submission_clears [OF that(1)] that(3)] .
  have "\<forall>s0 q es0. q \<noteq> query s0 \<and> run es0 (step (SetQuery q) s0) = Some s
                 \<and> list_all (\<lambda>ev. \<not> is_fetch_settle ev) es0
               \<longrightarrow> results (step (SearchSettles h (Inl e)) s) = None"
    unfolding st using cleared by auto
  with never show ?thesis unfolding st by simp
qed

lemma stale_failure_run_ok:
  "run stale_failure_run mounted = Some (fold step stale_failure_run mounted)"
  by (simp add: stale_failure_run_def stale_pending_run_def first_attempt_def run_defs)

lemma stale_failure_state:
  "fold step stale_failure_run mounted =
     \<lparr>query = ''ab'',
      results = Some \<lparr>fullArticles = [], basicArticles = [page_summary 7 ''A'' None],
                      count = 1, more_flag = False\<rparr>,
      searchDebounce = Some 3, now = 500, next_handle = 4, timers = [],
      awaiting_search = [3], awaiting_fetch = [], search_calls = [[''a''], [''ab'']],
      fetch_calls = [''A''],
      commits = [(2, \<lparr>fullArticles = [], basicArticles = [page_summary 7 ''A'' None],
                        count = 1, more_flag = False\<rparr>)]\<rparr>"
  by (simp add: stale_failure_run_def stale_pending_run_def first_attempt_def run_defs
      fulfilled_def truthy_def page_summary_def)

lemma stale_failure_wf: "wf (fold step stale_failure_run mounted)"
  using wf_mounted stale_failure_run_ok by (rule wf_run)

section \<open>Claims\<close>


text \<open>
  Claim C2. In every result the hook commits, an entity id occurs at most once in the two
  sequences taken together; the ids kept are those of the summaries that did not fail, and
  each summary kept is the first of its id in the order of the index's results. This holds
  of what lines 58 to 77 build from any list of outcomes, and of every result a run of the
  hook from its first render has committed or shows.
\<close>

theorem dedup_first_occurrence_wins:
  "deduplicated (fulfilled articles titles)
   \<and> article_id ` set (fullArticles (fulfilled articles titles)
                       @ basicArticles (fulfilled articles titles))
       = article_id ` set (succeeded articles)
   \<and> (\<forall>a \<in> set (fullArticles (fulfilled articles titles)
                  @ basicArticles (fulfilled articles titles)).
         find (\<lambda>b. article_id b = article_id a) (succeeded articles) = Some a)
   \<and> (run es mounted = Some s \<and> (results s = Some r \<or> r \<in> snd ` set (commits s))
        \<longrightarrow> deduplicated r)"
proof -
  have "deduplicated (fulfilled articles titles)"
    by (rule fulfilled_deduplicated)
  moreover have "article_id ` set (fullArticles (fulfilled articles titles)
                       @ basicArticles (fulfilled articles titles))
       = article_id ` set (succeeded articles)"
    unfolding fulfilled_set by (simp add: first_by_id_ids)
  moreover have "\<forall>a \<in> set (fullArticles (fulfilled articles titles)
                  @ basicArticles (fulfilled articles titles)).
         find (\<lambda>b. article_id b = article_id a) (succeeded articles) = Some a"
    unfolding fulfilled_set by (blast intro: first_by_id_first)
  moreover have "run es mounted = Some s \<and> (results s = Some r \<or> r \<in> snd ` set (commits s))
        \<longrightarrow> deduplicated r"
  proof
    assume a: "run es mounted = Some s \<and> (results s = Some r \<or> r \<in> snd ` set (commits s))"
    have "\<forall>r. results mounted = Some r \<or> r \<in> snd ` set (commits mounted) \<longrightarrow> deduplicated r"
      by (simp add: mounted_def unmounted_def useEffect_eq)
    with a run_deduplicated [of es mounted s] show "deduplicated r" by blast
  qed
  ultimately show ?thesis by blast
qed

theorem dedup_first_occurrence_wins_witness:
  "fullArticles (fulfilled example_articles (index_response [''A'', ''X'', ''A2'', ''B''] True))
     = [page_summary 7 ''A'' (Some ''img'')]
   \<and> basicArticles (fulfilled example_articles (index_response [''A'', ''X'', ''A2'', ''B''] True))
     = [page_summary 8 ''B'' None]
   \<and> find (\<lambda>b. article_id b = 7) (succeeded example_articles)
     = Some (page_summary 7 ''A'' (Some ''img''))
   \<and> run example_run mounted = Some (fold step example_run mounted)
   \<and> results (fold step example_run mounted)
     = Some (fulfilled example_articles (index_response [''A'', ''X'', ''A2'', ''B''] True))
   \<and> deduplicated (fulfilled example_articles (index_response [''A'', ''X'', ''A2'', ''B''] True))"
  using dedup_first_occurrence_wins
    [of example_articles "index_response [''A'', ''X'', ''A2'', ''B''] True" example_run
        "fold step example_run mounted"
        "fulfilled example_articles (index_response [''A'', ''X'', ''A2'', ''B''] True)"]
    example_run_ok example_run_results
  by (simp add: example_fulfilled) (simp add: page_summary_def)

text \<open>
  Claim C3. For every list of outcomes, the summaries kept after deduplication that have a
  non-empty image reference make up \<open>fullArticles\<close>, in order, and the kept summaries with
  no image or an empty one make up \<open>basicArticles\<close>; \<open>count\<close> is the sum of the two
  lengths, which is the number of summaries kept; the flag of the result is the flag of the
  index response; and this is the result the callback commits when its fetches settle
  without a rejection.
\<close>

theorem classification_count_more:
  "fullArticles (fulfilled articles titles)
     = filter (\<lambda>a. truthy (image_src a)) (first_by_id {} (succeeded articles))
   \<and> basicArticles (fulfilled articles titles)
     = filter (\<lambda>a. \<not> truthy (image_src a)) (first_by_id {} (succeeded articles))
   \<and> (\<forall>a \<in> set (fullArticles (fulfilled articles titles)).
         \<exists>src. image_src a = Some src \<and> src \<noteq> [])
   \<and> (\<forall>a \<in> set (basicArticles (fulfilled articles titles)).
         image_src a = None \<or> image_src a = Some [])
   \<and> count (fulfilled articles titles)
     = length (fullArticles (fulfilled articles titles))
       + length (basicArticles (fulfilled articles titles))
   \<and> count (fulfilled articles titles) = length (first_by_id {} (succeeded articles))
   \<and> more_flag (fulfilled articles titles) = search_more titles
   \<and> (map_of (awaiting_fetch s) h = Some titles
        \<and> promise_all (map fetch_summary settled) = Inr articles
      \<longrightarrow> results (step (FetchesSettle h settled) s) = Some (fulfilled articles titles))"
proof -
  have "\<forall>a \<in> set (fullArticles (fulfilled articles titles)).
         \<exists>src. image_src a = Some src \<and> src \<noteq> []"
    by (simp add: fulfilled_eq truthy_iff)
  moreover have "\<forall>a \<in> set (basicArticles (fulfilled articles titles)).
         image_src a = None \<or> image_src a = Some []"
    by (simp add: fulfilled_eq not_truthy_iff)
  moreover have "count (fulfilled articles titles)
     = length (fullArticles (fulfilled articles titles))
       + length (basicArticles (fulfilled articles titles))"
    by (simp add: fulfilled_eq sum_length_filter_compl)
  moreover have "map_of (awaiting_fetch s) h = Some titles
        \<and> promise_all (map fetch_summary settled) = Inr articles
      \<longrightarrow> results (step (FetchesSettle h settled) s) = Some (fulfilled articles titles)"
    using fetches_settle_commits(1) [of s h titles settled articles] by blast
  ultimately show ?thesis by (simp add: fulfilled_eq)
qed

theorem classification_count_more_witness:
  "page_summary 7 ''A'' (Some ''img'')
     \<in> set (fullArticles (fulfilled example_articles (index_response [''A'', ''X'', ''A2'', ''B''] True)))
   \<and> image_src (page_summary 7 ''A'' (Some ''img'')) = Some ''img''
   \<and> page_summary 8 ''B'' None
     \<in> set (basicArticles (fulfilled example_articles (index_response [''A'', ''X'', ''A2'', ''B''] True)))
   \<and> image_src (page_summary 8 ''B'' None) = None
   \<and> count (fulfilled example_articles (index_response [''A'', ''X'', ''A2'', ''B''] True)) = 2
   \<and> more_flag (fulfilled example_articles (index_response [''A'', ''X'', ''A2'', ''B''] True))
   \<and> map_of (awaiting_fetch (fold step (butlast example_run) mounted)) 2
       = Some (index_response [''A'', ''X'', ''A2'', ''B''] True)
   \<and> promise_all (map fetch_summary example_settled) = Inr example_articles
   \<and> results (step (FetchesSettle 2 example_settled) (fold step (butlast example_run) mounted))
       = Some (fulfilled example_articles (index_response [''A'', ''X'', ''A2'', ''B''] True))"
proof -
  let ?titles = "index_response [''A'', ''X'', ''A2'', ''B''] True"
  let ?s = "fold step (butlast example_run) mounted"
  note inst = classification_count_more [of example_articles ?titles ?s 2 example_settled]
  have full: "fullArticles (fulfilled example_articles ?titles)
                = [page_summary 7 ''A'' (Some ''img'')]"
    and basic: "basicArticles (fulfilled example_articles ?titles)
                = [page_summary 8 ''B'' None]"
    by (simp_all add: example_fulfilled)
  from inst example_awaiting example_outcomes
  have committed: "results (step (FetchesSettle 2 example_settled) ?s)
                     = Some (fulfilled example_articles ?titles)"
    by blast
  from inst have n: "count (fulfilled example_articles ?titles)
                      = length (fullArticles (fulfilled example_articles ?titles))
                        + length (basicArticles (fulfilled example_articles ?titles))"
    and m: "more_flag (fulfilled example_articles ?titles) = search_more ?titles"
    by blast+
  have "image_src (page_summary 7 ''A'' (Some ''img'')) = Some ''img''"
    and "image_src (page_summary 8 ''B'' None) = None"
    by (simp_all add: page_summary_def)
  moreover have "count (fulfilled example_articles ?titles) = 2"
    using n by (simp add: full basic)
  moreover have "more_flag (fulfilled example_articles ?titles)"
    using m by (simp add: index_response_def)
  ultimately show ?thesis
    using committed example_awaiting example_outcomes by (simp add: full basic)
qed

text \<open>
  Claim C4. From a well-formed state, a submission cancels the pending timer and leaves
  exactly one, due 250 time units later, which cannot fire earlier. In every run that
  follows in which each further submission comes less than 250 after the one before it, at
  most one timer fires, the index is queried at most once and with the terms of the last
  query submitted, the timer that fired is the one of the last submission, and it fired
  250 or more after that submission. With submissions at 0 and 100, one attempt fires, due
  at 350.
\<close>

theorem debounce_single_attempt:
  assumes "wf s" and "q \<noteq> query s" and "run (SetQuery q # es) s = Some s'"
    and "quiet q 0 es"
  shows "timers (step (SetQuery q) s) = [(next_handle s, now s + 250, tokenize q)]
         \<and> (\<forall>h d. d < 250 \<longrightarrow>
               \<not> enabled (TimerFires h) (step (Advance d) (step (SetQuery q) s)))
         \<and> length (filter is_fire es) \<le> 1
         \<and> search_calls s'
           = search_calls s @ replicate (length (filter is_fire es)) (tokenize (query s'))
         \<and> (\<forall>h. TimerFires h \<in> set es \<longrightarrow> searchDebounce s' = Some h)
         \<and> (\<forall>pre h post. es = pre @ TimerFires h # post
               \<longrightarrow> 250 \<le> since_submission q 0 pre)"
proof -
  let ?s1 = "step (SetQuery q) s"
  have st: "?s1 =
     s\<lparr>query := q, results := None,
       timers := [(next_handle s, now s + 250, tokenize q)],
       next_handle := Suc (next_handle s),
       searchDebounce := Some (next_handle s)\<rparr>"
    using assms(1,2) by (rule submission_schedules)
  have wf1: "wf ?s1" using assms(1) by (rule wf_step) simp
  have r: "run es ?s1 = Some s'" using assms(3) by (simp del: step.simps)
  have d: "debounced 0 ?s1" unfolding st by (simp add: debounced_def)
  have q: "quiet (query ?s1) 0 es" unfolding st using assms(4) by simp
  from quiet_run [OF wf1 d r q]
  have "length (filter is_fire es) \<le> length (timers ?s1)"
    and calls: "search_calls s'
           = search_calls ?s1 @ replicate (length (filter is_fire es)) (tokenize (query s'))"
    and cur: "\<forall>h. TimerFires h \<in> set es \<longrightarrow> searchDebounce s' = Some h"
    by blast+
  then have one: "length (filter is_fire es) \<le> 1" unfolding st by simp
  have early: "\<forall>h d. d < 250 \<longrightarrow> \<not> enabled (TimerFires h) (step (Advance d) ?s1)"
    unfolding st by (simp split: option.splits)
  have tm: "timers ?s1 = [(next_handle s, now s + 250, tokenize q)]" unfolding st by simp
  have qs: "query ?s1 = q" unfolding st by simp
  have late: "\<forall>pre h post. es = pre @ TimerFires h # post
               \<longrightarrow> 250 \<le> since_submission q 0 pre"
  proof (intro allI impI)
    fix pre h post
    assume e: "es = pre @ TimerFires h # post"
    from fires_after_interval [OF wf1 d, of pre h post s'] r q e
    show "250 \<le> since_submission q 0 pre" unfolding qs by simp
  qed
  have "search_calls ?s1 = search_calls s" unfolding st by simp
  with calls one early tm cur late show ?thesis by (simp del: step.simps)
qed

theorem debounce_single_attempt_witness:
  "wf mounted \<and> ''a'' \<noteq> query mounted
   \<and> run (SetQuery ''a'' # burst) mounted = Some (fold step (SetQuery ''a'' # burst) mounted)
   \<and> quiet ''a'' 0 burst
   \<and> timers (fold step [SetQuery ''a'', Advance 100, SetQuery ''ab''] mounted)
       = [(3, 350, [''ab''])]
   \<and> length (filter is_fire burst) = 1
   \<and> search_calls (fold step (SetQuery ''a'' # burst) mounted) = [[''ab'']]
   \<and> searchDebounce (fold step (SetQuery ''a'' # burst) mounted) = Some 3
   \<and> burst = butlast burst @ TimerFires 3 # []
   \<and> since_submission ''a'' 0 (butlast burst) = 250
   \<and> run [SetQuery ''a'', Advance 100, SetQuery ''ab'', Advance 250, TimerFires 2] mounted = None
   \<and> run [SetQuery ''a'', Advance 100, SetQuery ''ab'', Advance 249, TimerFires 3] mounted = None"
proof -
  have q: "''a'' \<noteq> query mounted" by (simp add: run_defs)
  have qu: "quiet ''a'' 0 burst" by (simp add: burst_def)
  note inst = debounce_single_attempt [OF wf_mounted q burst_run qu]
  have n: "length (filter is_fire burst) = 1" by (simp add: burst_def)
  from inst have "search_calls (fold step (SetQuery ''a'' # burst) mounted)
      = search_calls mounted @ replicate (length (filter is_fire burst))
          (tokenize (query (fold step (SetQuery ''a'' # burst) mounted)))"
    by blast
  then have calls: "search_calls (fold step (SetQuery ''a'' # burst) mounted) = [[''ab'']]"
    unfolding n burst_state by (simp add: run_defs)
  have "TimerFires 3 \<in> set burst" by (simp add: burst_def)
  with inst have cur: "searchDebounce (fold step (SetQuery ''a'' # burst) mounted) = Some 3"
    by blast
  have tm: "timers (fold step [SetQuery ''a'', Advance 100, SetQuery ''ab''] mounted)
       = [(3, 350, [''ab''])]"
    by (simp add: run_defs)
  have no2: "run [SetQuery ''a'', Advance 100, SetQuery ''ab'', Advance 250, TimerFires 2] mounted
               = None"
    and early: "run [SetQuery ''a'', Advance 100, SetQuery ''ab'', Advance 249, TimerFires 3] mounted
               = None"
    by (simp_all add: run_defs)
  have split: "burst = butlast burst @ TimerFires 3 # []"
    and since: "since_submission ''a'' 0 (butlast burst) = 250"
    by (simp_all add: burst_def)
  from wf_mounted q burst_run qu tm n calls cur split since no2 early show ?thesis by blast
qed

text \<open>
  Claim C6. A callback is waiting for its fetches, one per title of the index response,
  and every fetch is answered either with a status outside 200 to 299 or with a status from
  200 to 299 and the JSON of a page that has a desktop URL. Then the callback is not
  aborted and commits: the outcome of a fetch is null exactly when its status was a
  non-success one, the other outcomes are the summaries of the pages answered, and the
  committed result holds exactly these summaries, deduplicated; its entity ids are the
  page ids of the answers with a status from 200 to 299, and \<open>count\<close> is their number.
  With three titles and one failure the two successes are committed and \<open>count\<close> is 2.
\<close>

theorem resolver_failure_is_isolated:
  assumes "map_of (awaiting_fetch s) h = Some titles"
    and "length settled = length (search_results titles)"
    and "\<forall>res \<in> set settled. non_success res \<or> success res"
  shows "results (step (FetchesSettle h settled) s)
           = Some (fulfilled (map expected_summary settled) titles)
         \<and> commits (step (FetchesSettle h settled) s)
           = commits s @ [(h, fulfilled (map expected_summary settled) titles)]
         \<and> length (map expected_summary settled) = length (search_results titles)
         \<and> (\<forall>res \<in> set settled. (expected_summary res = None) = non_success res)
         \<and> set (fullArticles (fulfilled (map expected_summary settled) titles)
                 @ basicArticles (fulfilled (map expected_summary settled) titles))
           = set (first_by_id {} (succeeded (map expected_summary settled)))
         \<and> deduplicated (fulfilled (map expected_summary settled) titles)
         \<and> article_id ` set (fullArticles (fulfilled (map expected_summary settled) titles)
                 @ basicArticles (fulfilled (map expected_summary settled) titles))
           = pageid ` {m. \<exists>status. Response status (Json m) \<in> set settled
                            \<and> 200 \<le> status \<and> status \<le> 299}
         \<and> count (fulfilled (map expected_summary settled) titles)
           = card (pageid ` {m. \<exists>status. Response status (Json m) \<in> set settled
                                  \<and> 200 \<le> status \<and> status \<le> 299})"
proof -
  have "map fetch_summary settled = map Inr (map expected_summary settled)"
    using assms(3) by (simp add: fetch_summary_expected(1))
  then have all: "promise_all (map fetch_summary settled) = Inr (map expected_summary settled)"
    by (simp only: promise_all_map_Inr)
  have nulls: "\<forall>res \<in> set settled. (expected_summary res = None) = non_success res"
    using assms(3) fetch_summary_expected(2) by blast
  note ids = expected_summary_ids [OF assms(3)]
  have kept: "article_id ` set (fullArticles (fulfilled (map expected_summary settled) titles)
                 @ basicArticles (fulfilled (map expected_summary settled) titles))
           = pageid ` {m. \<exists>status. Response status (Json m) \<in> set settled
                            \<and> 200 \<le> status \<and> status \<le> 299}"
    unfolding fulfilled_ids ids ..
  have n: "count (fulfilled (map expected_summary settled) titles)
           = card (pageid ` {m. \<exists>status. Response status (Json m) \<in> set settled
                                  \<and> 200 \<le> status \<and> status \<le> 299})"
    unfolding ids [symmetric] by (simp add: fulfilled_eq length_first_by_id)
  have len: "length (map expected_summary settled) = length (search_results titles)"
    using assms(2) by simp
  note committed = fetches_settle_commits [OF assms(1) all]
  note same = fulfilled_set [of "map expected_summary settled" titles]
  note dedup = fulfilled_deduplicated [of "map expected_summary settled" titles]
  show ?thesis
    by (intro conjI) (fact committed len nulls same dedup kept n)+
qed

theorem resolver_failure_is_isolated_witness:
  "map_of (awaiting_fetch (fold step partial_run mounted)) 2
     = Some (index_response [''A'', ''X'', ''B''] False)
   \<and> length partial_settled = length (search_results (index_response [''A'', ''X'', ''B''] False))
   \<and> success (partial_settled ! 0)
   \<and> non_success (partial_settled ! 1)
   \<and> success (partial_settled ! 2)
   \<and> results (step (FetchesSettle 2 partial_settled) (fold step partial_run mounted))
     = Some \<lparr>fullArticles = [page_summary 7 ''A'' (Some ''img'')],
             basicArticles = [page_summary 8 ''B'' None], count = 2, more_flag = False\<rparr>"
proof -
  let ?titles = "index_response [''A'', ''X'', ''B''] False"
  let ?s = "fold step partial_run mounted"
  have len: "length partial_settled = length (search_results ?titles)"
    by (simp add: partial_settled_def index_response_def)
  have f: "non_success (partial_settled ! 1)"
    and a: "success (partial_settled ! 0)"
    and b: "success (partial_settled ! 2)"
    by (simp_all add: partial_settled_def non_success_def success_def page_metadata_def)
  have each: "\<forall>res \<in> set partial_settled. non_success res \<or> success res"
    by (simp add: partial_settled_def non_success_def success_def page_metadata_def)
  from resolver_failure_is_isolated [OF partial_awaiting len each]
  have "results (step (FetchesSettle 2 partial_settled) ?s)
          = Some (fulfilled (map expected_summary partial_settled) ?titles)"
    by blast
  then have "results (step (FetchesSettle 2 partial_settled) ?s)
     = Some \<lparr>fullArticles = [page_summary 7 ''A'' (Some ''img'')],
             basicArticles = [page_summary 8 ''B'' None], count = 2, more_flag = False\<rparr>"
    by (simp only: partial_expected partial_fulfilled)
  with partial_awaiting len f a b show ?thesis by blast
qed

text \<open>
  Claim C7, evaluated where the code departs from it. The second attempt (handle 3) is the
  current one and waits for the index; the fetch of the first attempt, superseded since,
  has settled in between and line 72 has committed its result. The index query of the
  second attempt fails: the callback ends and commits nothing, and \<open>results\<close> is not
  undefined but the result of the first attempt.
\<close>

theorem index_failure_after_stale_commit:
  "run stale_failure_run mounted = Some (fold step stale_failure_run mounted)
   \<and> query (fold step stale_failure_run mounted) = ''ab''
   \<and> searchDebounce (fold step stale_failure_run mounted) = Some 3
   \<and> awaiting_search (fold step stale_failure_run mounted) = [3]
   \<and> enabled (SearchSettles 3 (Inl NetworkError)) (fold step stale_failure_run mounted)
   \<and> map fst (commits (step (SearchSettles 3 (Inl NetworkError))
                          (fold step stale_failure_run mounted))) = [2]
   \<and> results (step (SearchSettles 3 (Inl NetworkError)) (fold step stale_failure_run mounted))
     = Some \<lparr>fullArticles = [], basicArticles = [page_summary 7 ''A'' None], count = 1,
             more_flag = False\<rparr>"
proof -
  have "query (fold step stale_failure_run mounted) = ''ab''"
    and "searchDebounce (fold step stale_failure_run mounted) = Some 3"
    and "awaiting_search (fold step stale_failure_run mounted) = [3]"
    and "enabled (SearchSettles 3 (Inl NetworkError)) (fold step stale_failure_run mounted)"
    and "map fst (commits (step (SearchSettles 3 (Inl NetworkError))
                          (fold step stale_failure_run mounted))) = [2]"
    and "results (step (SearchSettles 3 (Inl NetworkError)) (fold step stale_failure_run mounted))
     = Some \<lparr>fullArticles = [], basicArticles = [page_summary 7 ''A'' None], count = 1,
             more_flag = False\<rparr>"
    unfolding stale_failure_state by (simp_all add: callback_after_search_def)
  with stale_failure_run_ok show ?thesis by (intro conjI)
qed

text \<open>
  Claim C9. A submission whose query has no token is not short-circuited: it schedules a
  timer 250 time units ahead carrying the empty term list, and once 250 or more have passed
  the timer fires and \<^verbatim>\<open>client.search\<close> is called with no term. The same holds of the
  first render, whose query is the empty string.
\<close>

theorem empty_query_still_searches:
  assumes "wf s" and "tokenize raw = []" and "raw \<noteq> query s" and "250 \<le> d"
  shows "timers (step (SetQuery raw) s) = [(next_handle s, now s + 250, [])]
         \<and> (\<exists>s'. run [SetQuery raw, Advance d, TimerFires (next_handle s)] s = Some s'
                \<and> search_calls s' = search_calls s @ [[]]
                \<and> awaiting_search s' = awaiting_search s @ [next_handle s])
         \<and> (\<exists>s'. run [Advance d, TimerFires (next_handle unmounted)] mounted = Some s'
                \<and> search_calls s' = [[]]
                \<and> awaiting_search s' = [next_handle unmounted])"
proof -
  have wfq: "wf (s\<lparr>query := raw\<rparr>)" using assms(1) by (simp add: wf_query)
  have sq: "step (SetQuery raw) s = useEffect (s\<lparr>query := raw\<rparr>)" using assms(3) by simp
  have "timers (step (SetQuery raw) s) = [(next_handle s, now s + 250, [])]"
    unfolding submission_schedules [OF assms(1,3)] using assms(2) by simp
  moreover have "\<exists>s'. run [SetQuery raw, Advance d, TimerFires (next_handle s)] s = Some s'
                \<and> search_calls s' = search_calls s @ [[]]
                \<and> awaiting_search s' = awaiting_search s @ [next_handle s]"
  proof -
    define fired where "fired = useEffect (s\<lparr>query := raw\<rparr>)
        \<lparr>now := now s + d, timers := [],
         search_calls := search_calls s @ [tokenize raw],
         awaiting_search := awaiting_search s @ [next_handle s]\<rparr>"
    have fire: "run [Advance d, TimerFires (next_handle s)] (useEffect (s\<lparr>query := raw\<rparr>))
                  = Some fired"
      using effect_then_fire [OF wfq assms(4)] unfolding fired_def by (simp del: run.simps)
    have "run [SetQuery raw, Advance d, TimerFires (next_handle s)] s
            = run [Advance d, TimerFires (next_handle s)] (useEffect (s\<lparr>query := raw\<rparr>))"
      by (subst run.simps(2)) (simp add: assms(3) del: run.simps)
    with fire have "run [SetQuery raw, Advance d, TimerFires (next_handle s)] s = Some fired"
      by (simp del: run.simps)
    moreover have "search_calls fired = search_calls s @ [[]]"
      and "awaiting_search fired = awaiting_search s @ [next_handle s]"
      by (simp_all add: fired_def assms(2))
    ultimately show ?thesis by blast
  qed
  moreover have "\<exists>s'. run [Advance d, TimerFires (next_handle unmounted)] mounted = Some s'
                \<and> search_calls s' = [[]]
                \<and> awaiting_search s' = [next_handle unmounted]"
  proof -
    have "wf unmounted" by (simp add: wf_def in_flight_def unmounted_def)
    from effect_then_fire [OF this assms(4)]
    have "run [Advance d, TimerFires (next_handle unmounted)] mounted
            = Some (mounted
                  \<lparr>now := now unmounted + d, timers := [],
                   search_calls := search_calls unmounted @ [tokenize (query unmounted)],
                   awaiting_search := awaiting_search unmounted @ [next_handle unmounted]\<rparr>)"
      unfolding mounted_def .
    moreover have "search_calls unmounted @ [tokenize (query unmounted)] = [[]]"
      and "awaiting_search unmounted @ [next_handle unmounted] = [next_handle unmounted]"
      by (simp_all add: unmounted_def tokenize_examples)
    ultimately show ?thesis by simp
  qed
  ultimately show ?thesis by blast
qed

theorem empty_query_still_searches_witness:
  "wf mounted \<and> tokenize ''   '' = [] \<and> ''   '' \<noteq> query mounted \<and> (250::nat) \<le> 250
   \<and> timers (step (SetQuery ''   '') mounted) = [(2, 250, [])]
   \<and> run (whitespace_attempt 250) mounted = Some (fold step (whitespace_attempt 250) mounted)
   \<and> search_calls (fold step (whitespace_attempt 250) mounted) = [[]]
   \<and> awaiting_search (fold step (whitespace_attempt 250) mounted) = [2]
   \<and> search_calls (fold step [Advance 250, TimerFires 1] mounted) = [[]]"
proof -
  have t: "tokenize ''   '' = []" by (rule tokenize_examples)
  have q: "''   '' \<noteq> query mounted" by (simp add: run_defs)
  have d: "(250::nat) \<le> 250" by simp
  have n: "next_handle mounted = 2" "now mounted = 0" "search_calls mounted = []"
    "awaiting_search mounted = []" "next_handle unmounted = 1"
    by (simp_all add: run_defs)
  note inst = empty_query_still_searches [OF wf_mounted t q d]
  from inst have "timers (step (SetQuery ''   '') mounted)
                    = [(next_handle mounted, now mounted + 250, [])]"
    by blast
  then have 1: "timers (step (SetQuery ''   '') mounted) = [(2, 250, [])]"
    by (simp add: n del: step.simps)
  from inst obtain s' where "run [SetQuery ''   '', Advance 250, TimerFires (next_handle mounted)]
                               mounted = Some s'"
    "search_calls s' = search_calls mounted @ [[]]"
    "awaiting_search s' = awaiting_search mounted @ [next_handle mounted]"
    by blast
  then have s': "run (whitespace_attempt 250) mounted = Some s'"
    "search_calls s' = [[]]" "awaiting_search s' = [2]"
    by (simp_all add: n whitespace_attempt_def del: run.simps)
  from run_fold [OF s'(1)] s'
  have 2: "run (whitespace_attempt 250) mounted = Some (fold step (whitespace_attempt 250) mounted)"
    "search_calls (fold step (whitespace_attempt 250) mounted) = [[]]"
    "awaiting_search (fold step (whitespace_attempt 250) mounted) = [2]"
    by simp_all
  from inst obtain s'' where
    "run [Advance 250, TimerFires (next_handle unmounted)] mounted = Some s''"
    "search_calls s'' = [[]]"
    by blast
  then have s'': "run [Advance 250, TimerFires 1] mounted = Some s''" "search_calls s'' = [[]]"
    by (simp_all add: n del: run.simps)
  from run_fold [OF s''(1)] s''(2)
  have 3: "search_calls (fold step [Advance 250, TimerFires 1] mounted) = [[]]" by simp
  from wf_mounted t q d 1 2 3 show ?thesis by blast
qed

text \<open>
  Claim C10. When the index query of a callback returns and \<^verbatim>\<open>searchDebounce.current\<close>
  is no longer the callback's \<^verbatim>\<open>searchId\<close>, the callback ends there: it issues no
  fetch, is not left waiting for fetches (so it never classifies), changes neither
  \<open>query\<close>, \<open>results\<close>, the ref nor the timers, and in no continuation of the run does
  it commit a result.
\<close>

theorem superseded_at_index_return_stops:
  assumes "wf s" and "h \<in> set (awaiting_search s)" and "searchDebounce s \<noteq> Some h"
  shows "step (SearchSettles h (Inr titles)) s
           = s\<lparr>awaiting_search := removeAll h (awaiting_search s)\<rparr>
         \<and> fetch_calls (step (SearchSettles h (Inr titles)) s) = fetch_calls s
         \<and> awaiting_fetch (step (SearchSettles h (Inr titles)) s) = awaiting_fetch s
         \<and> results (step (SearchSettles h (Inr titles)) s) = results s
         \<and> commits (step (SearchSettles h (Inr titles)) s) = commits s
         \<and> query (step (SearchSettles h (Inr titles)) s) = query s
         \<and> searchDebounce (step (SearchSettles h (Inr titles)) s) = searchDebounce s
         \<and> timers (step (SearchSettles h (Inr titles)) s) = timers s
         \<and> (\<forall>es s'. run es (step (SearchSettles h (Inr titles)) s) = Some s'
               \<longrightarrow> h \<notin> fst ` set (commits s') \<and> h \<notin> set (in_flight s'))"
proof -
  have st: "step (SearchSettles h (Inr titles)) s
              = s\<lparr>awaiting_search := removeAll h (awaiting_search s)\<rparr>"
    using assms(3) by (rule search_superseded_stops)
  have "\<forall>es s'. run es (step (SearchSettles h (Inr titles)) s) = Some s'
               \<longrightarrow> h \<notin> fst ` set (commits s') \<and> h \<notin> set (in_flight s')"
    unfolding st using stopped_never_commits [OF assms(1,2)] by blast
  then show ?thesis unfolding st by simp
qed

theorem superseded_at_index_return_stops_witness:
  "wf (fold step superseded_attempt mounted)
   \<and> 2 \<in> set (awaiting_search (fold step superseded_attempt mounted))
   \<and> searchDebounce (fold step superseded_attempt mounted) = Some 3
   \<and> fetch_calls (step (SearchSettles 2 (Inr (index_response [''A''] False)))
                    (fold step superseded_attempt mounted)) = []
   \<and> awaiting_fetch (step (SearchSettles 2 (Inr (index_response [''A''] False)))
                    (fold step superseded_attempt mounted)) = []
   \<and> results (step (SearchSettles 2 (Inr (index_response [''A''] False)))
                    (fold step superseded_attempt mounted)) = None
   \<and> run (tl second_attempt)
        (step (SearchSettles 2 (Inr (index_response [''A''] False)))
           (fold step superseded_attempt mounted))
       = Some (fold step (tl second_attempt)
                (step (SearchSettles 2 (Inr (index_response [''A''] False)))
                   (fold step superseded_attempt mounted)))
   \<and> 2 \<notin> fst ` set (commits (fold step (tl second_attempt)
                (step (SearchSettles 2 (Inr (index_response [''A''] False)))
                   (fold step superseded_attempt mounted))))"
proof -
  let ?s = "fold step superseded_attempt mounted"
  let ?s1 = "step (SearchSettles 2 (Inr (index_response [''A''] False))) ?s"
  have wf: "wf ?s" using wf_mounted superseded_attempt_run by (rule wf_run)
  have h: "2 \<in> set (awaiting_search ?s)" by (simp add: superseded_attempt_state)
  have cur: "searchDebounce ?s = Some 3" by (simp add: superseded_attempt_state)
  then have ne: "searchDebounce ?s \<noteq> Some 2" by simp
  note inst = superseded_at_index_return_stops [OF wf h ne, of "index_response [''A''] False"]
  have later: "run (tl second_attempt) ?s1 = Some (fold step (tl second_attempt) ?s1)"
    unfolding superseded_attempt_state
    by (simp add: second_attempt_def callback_after_search_def callback_after_fetch_def
        callback_start_def index_response_def)
  from inst later have never: "2 \<notin> fst ` set (commits (fold step (tl second_attempt) ?s1))"
    by blast
  from inst have "fetch_calls ?s1 = fetch_calls ?s" "awaiting_fetch ?s1 = awaiting_fetch ?s"
    "results ?s1 = results ?s"
    by blast+
  then have "fetch_calls ?s1 = []" "awaiting_fetch ?s1 = []" "results ?s1 = None"
    by (simp_all add: superseded_attempt_state)
  with wf h cur later never show ?thesis by blast
qed

text \<open>
  Claim C1, evaluated where the code departs from it. The first attempt (handle 2) passes
  the guard of line 38 and waits for its fetch; the query changes, the second attempt
  (handle 3) runs to its commit; then the fetch of the first attempt settles and line 72
  commits its result, which is what \<open>results\<close> shows for the query of the second.
\<close>

theorem stale_attempt_overwrites:
  "run stale_run mounted = Some (fold step stale_run mounted)
   \<and> query (fold step stale_run mounted) = ''ab''
   \<and> searchDebounce (fold step stale_run mounted) = Some 3
   \<and> map fst (commits (fold step stale_run mounted)) = [3, 2]
   \<and> results (fold step stale_run mounted)
     = Some \<lparr>fullArticles = [], basicArticles = [page_summary 7 ''A'' None], count = 1,
             more_flag = False\<rparr>"
  by (simp add: stale_run_def first_attempt_def second_attempt_def run_defs fulfilled_def
      truthy_def page_summary_def)

text \<open>
  Claim C8, evaluated where the code departs from it. The submission of the second query
  sets \<open>results\<close> to undefined at once; while its timer (handle 3, due at 500) is still
  pending, the fetch of the first attempt settles and \<open>results\<close> holds the result of the
  first attempt.
\<close>

theorem stale_commit_while_pending:
  "run stale_pending_run mounted = Some (fold step stale_pending_run mounted)
   \<and> results (fold step stale_pending_run mounted) = None
   \<and> timers (fold step stale_pending_run mounted) = [(3, 500, [''ab''])]
   \<and> enabled (FetchesSettle 2 [Response 200 (Json (page_metadata 7 ''A'' None))])
        (fold step stale_pending_run mounted)
   \<and> timers (step (FetchesSettle 2 [Response 200 (Json (page_metadata 7 ''A'' None))])
               (fold step stale_pending_run mounted)) = [(3, 500, [''ab''])]
   \<and> searchDebounce (step (FetchesSettle 2 [Response 200 (Json (page_metadata 7 ''A'' None))])
               (fold step stale_pending_run mounted)) = Some 3
   \<and> map fst (commits (step (FetchesSettle 2 [Response 200 (Json (page_metadata 7 ''A'' None))])
               (fold step stale_pending_run mounted))) = [2]
   \<and> results (step (FetchesSettle 2 [Response 200 (Json (page_metadata 7 ''A'' None))])
               (fold step stale_pending_run mounted))
     = Some \<lparr>fullArticles = [], basicArticles = [page_summary 7 ''A'' None], count = 1,
             more_flag = False\<rparr>"
  by (simp add: stale_pending_run_def first_attempt_def run_defs fulfilled_def
      truthy_def page_summary_def)

end
